theory Spec2Isabelle
  imports Complex_Main "HOL-Library.Multiset" "HOL-Library.Product_Lexorder" "HOL-Library.Word"
begin

unbundle bit_operations_syntax

section \<open>Data model\<close>

text \<open>
  A row of the ratings table, with the columns the event deriver reads
  (\<^verbatim>\<open>userId, movieId, rating, timestamp\<close>).  The timestamp is Unix time in whole
  seconds; a rating is a finite number, kept exact as a rational (it is only ever compared
  with \<^verbatim>\<open>4\<close> and \<^verbatim>\<open>4.5\<close>, both of which a binary float holds exactly).
\<close>

record rating_row =
  userId :: int
  movieId :: int
  rating :: rat
  timestamp :: int

text \<open>
  A row of the event log (\<^verbatim>\<open>user_id, event, item_id, ts\<close>).  The column \<^verbatim>\<open>ts\<close> is the
  datetime that \<^verbatim>\<open>pd.to_datetime(.., unit="s")\<close> builds from the Unix timestamp; it is kept
  as the number of seconds since the epoch.  The event name is the string the source
  writes into the column.
\<close>

record event_row =
  user_id :: int
  item_id :: int
  ts :: int
  event :: string

section \<open>Event deriver (analytics.py, prepare\_events)\<close>

text \<open>
  \<^verbatim>\<open>df[["user_id","item_id","ts"]].copy()\<close> followed by the assignment of the constant
  \<^verbatim>\<open>event\<close> column: one event row per selected rating row.
\<close>

definition to_event :: "string \<Rightarrow> rating_row \<Rightarrow> event_row" where
  "to_event name r =
     \<lparr>user_id = userId r, item_id = movieId r, ts = timestamp r, event = name\<rparr>"

text \<open>
  The three frames \<^verbatim>\<open>views\<close>, \<^verbatim>\<open>likes\<close>, \<^verbatim>\<open>maybe_comment\<close> are concatenated and sorted
  on \<^verbatim>\<open>ts\<close>.  The order pandas gives to rows of equal \<^verbatim>\<open>ts\<close> is left to its sorting
  routine; the model takes the stable order, and nothing below depends on that choice.
  The \<^verbatim>\<open>users\<close> and \<^verbatim>\<open>movies\<close> tables of the result are the inputs with a column renamed
  and are not modelled.
\<close>

definition prepare_events :: "rating_row list \<Rightarrow> event_row list" where
  "prepare_events ratings =
     (let views = map (to_event ''view'') ratings;
          likes = map (to_event ''like'') (filter (\<lambda>r. 4 \<le> rating r) ratings);
          maybe_comment = map (to_event ''comment'') (filter (\<lambda>r. 9 / 2 \<le> rating r) ratings);
          events = views @ likes @ maybe_comment
      in sort_key ts events)"

section \<open>Table operations\<close>

text \<open>
  The results of the float computations of the program: a finite number, positive infinity
  or NaN.  Finite values are exact; the divisions of this program are of counts, so negative
  infinity does not arise.
\<close>

datatype 'a float64 = Fin 'a | PosInf | NaN

text \<open>
  \<^verbatim>\<open>groupby(key)\<close>: one group per distinct key, the groups in ascending key order, the
  rows of a group in the order of the frame.
\<close>

definition groupby :: "('a \<Rightarrow> 'k::linorder) \<Rightarrow> 'a list \<Rightarrow> ('k \<times> 'a list) list" where
  "groupby key xs = map (\<lambda>k. (k, filter (\<lambda>x. key x = k) xs)) (sort (remdups (map key xs)))"

text \<open>
  \<^verbatim>\<open>left.merge(right, on=key, how="left")\<close>: every left row, in order, joined with each
  right row of the same key; a left row without a partner is kept once, its right columns
  missing.
\<close>

definition merge_left ::
  "('a \<Rightarrow> 'k) \<Rightarrow> ('b \<Rightarrow> 'k) \<Rightarrow> 'a list \<Rightarrow> 'b list \<Rightarrow> ('a \<times> 'b option) list" where
  "merge_left ka kb ls rs =
     concat (map (\<lambda>a. case filter (\<lambda>b. kb b = ka a) rs of
                         [] \<Rightarrow> [(a, None)]
                       | ms \<Rightarrow> map (\<lambda>b. (a, Some b)) ms) ls)"

text \<open>\<^verbatim>\<open>drop_duplicates()\<close> keeps the first occurrence of every row.\<close>

definition drop_duplicates :: "'a list \<Rightarrow> 'a list" where
  "drop_duplicates xs = rev (remdups (rev xs))"

text \<open>
  \<^verbatim>\<open>ev.groupby("user_id")["ts"].min()\<close>: the first timestamp of every user.  A group is
  never empty, so the minimum is that of a non-empty set.
\<close>

definition first_ts :: "event_row list \<Rightarrow> (int \<times> int) list" where
  "first_ts ev = map (\<lambda>(u, g). (u, Min (set (map ts g)))) (groupby user_id ev)"

text \<open>
  \<^verbatim>\<open>(ev["ts"] - ev["t0"]).dt.total_seconds() / 86400\<close> on a row of the merged frame; a
  missing \<^verbatim>\<open>t0\<close> gives NaN.  The quotient is kept exact: the program compares it only
  with whole numbers of days, and a whole number of seconds is on the same side of such a
  bound before and after the rounding of the float division.
\<close>

fun days_since :: "event_row \<times> (int \<times> int) option \<Rightarrow> rat float64" where
  "days_since (e, None) = NaN"
| "days_since (e, Some (u, t0)) = Fin (of_int (ts e - t0) / 86400)"

text \<open>Comparisons of a float with a number; each is false on NaN.\<close>

fun float_le :: "rat float64 \<Rightarrow> rat \<Rightarrow> bool" where
  "float_le (Fin v) c = (v \<le> c)"
| "float_le PosInf c = False"
| "float_le NaN c = False"

fun float_ge :: "rat float64 \<Rightarrow> rat \<Rightarrow> bool" where
  "float_ge (Fin v) c = (c \<le> v)"
| "float_ge PosInf c = True"
| "float_ge NaN c = False"

fun float_lt :: "rat float64 \<Rightarrow> rat \<Rightarrow> bool" where
  "float_lt (Fin v) c = (v < c)"
| "float_lt PosInf c = False"
| "float_lt NaN c = False"

text \<open>
  Division of a count by a count column that may have missing entries, as numpy does it:
  no exception, \<^verbatim>\<open>0/0\<close> and a missing divisor give NaN, \<^verbatim>\<open>n/0\<close> gives infinity.
\<close>

fun true_divide :: "nat \<Rightarrow> nat option \<Rightarrow> rat float64" where
  "true_divide a None = NaN"
| "true_divide a (Some b) =
     (if b \<noteq> 0 then Fin (of_nat a / of_nat b) else if a = 0 then NaN else PosInf)"

section \<open>Analytics engine (analytics.py)\<close>

subsection \<open>build\_cohorts\<close>

record cohort_row =
  cohort :: int
  period :: int
  active_users :: nat
  cohort_size :: "nat option"
  retention_rate :: "rat float64"

text \<open>
  The start of the period that holds a timestamp, \<^verbatim>\<open>ts.dt.to_period(period).dt.start_time\<close>,
  is a parameter \<open>period_start\<close> of the model.  For the frequency \<^verbatim>\<open>"W"\<close> the application
  uses, a period is a week from Monday to Sunday and its start is Monday 00:00 (day 0 of
  the epoch is a Thursday).
\<close>

definition week_start :: "int \<Rightarrow> int" where
  "week_start t = (let d = t div 86400 in (d - (d + 3) mod 7) * 86400)"

text \<open>
  A row of \<^verbatim>\<open>ev\<close> after the merge is an event, its period and the cohort of its user;
  grouping on \<^verbatim>\<open>["cohort","period"]\<close> drops the rows whose cohort is missing.  A missing
  \<^verbatim>\<open>cohort_size\<close> after the second merge is \<open>None\<close>.
\<close>

definition build_cohorts :: "(int \<Rightarrow> int) \<Rightarrow> event_row list \<Rightarrow> cohort_row list" where
  "build_cohorts period_start events =
     (let ev = map (\<lambda>e. (e, period_start (ts e))) events;
          first = map (\<lambda>(u, g). (u, Min (set (map snd g)))) (groupby (\<lambda>r. user_id (fst r)) ev);
          ev = merge_left (\<lambda>r. user_id (fst r)) fst ev first;
          keyed = List.map_filter
                    (\<lambda>((e, p), m). case m of None \<Rightarrow> None | Some (u, c) \<Rightarrow> Some (e, c, p)) ev;
          retention = map (\<lambda>(k, g). (k, length (remdups (map (\<lambda>r. user_id (fst r)) g))))
                        (groupby snd keyed);
          sizes = map (\<lambda>((c, p), n). (c, n)) (filter (\<lambda>((c, p), n). p = c) retention);
          out = map (\<lambda>(((c, p), n), m).
                       \<lparr>cohort = c, period = p, active_users = n,
                        cohort_size = map_option snd m,
                        retention_rate = true_divide n (map_option snd m)\<rparr>)
                  (merge_left (\<lambda>r. fst (fst r)) fst retention sizes)
      in sort_key (\<lambda>r. (cohort r, period r)) out)"

subsection \<open>build\_funnel\<close>

record funnel_row =
  step :: string
  users :: nat
  rate_vs_signup :: "rat float64"

text \<open>
  The three merges keep the rows of \<^verbatim>\<open>users\<close> and add the columns \<^verbatim>\<open>step1\<close>,
  \<^verbatim>\<open>step2\<close>, \<^verbatim>\<open>step3\<close>; \<^verbatim>\<open>fillna(0)\<close> makes a missing step 0.
\<close>

definition fillna0 :: "('a \<Rightarrow> nat) \<Rightarrow> 'a option \<Rightarrow> nat" where
  "fillna0 col m = (case m of None \<Rightarrow> 0 | Some b \<Rightarrow> col b)"

definition build_funnel :: "event_row list \<Rightarrow> funnel_row list" where
  "build_funnel events =
     (let ev = merge_left user_id fst events (first_ts events);
          users = drop_duplicates (map (\<lambda>r. (user_id (fst r), map_option snd (snd r))) ev);
          step1 = map (\<lambda>(u, t). (u, t, 1::nat)) users;
          activated = map (\<lambda>(u, g). (u, length g))
                        (groupby (\<lambda>r. user_id (fst r))
                           (filter (\<lambda>r. event (fst r) = ''view'' \<and> float_le (days_since r) 3) ev));
          step2_users = map (\<lambda>(u, n). (u, 1::nat)) (filter (\<lambda>(u, n). 5 \<le> n) activated);
          week1 = map (\<lambda>(u, g). (u, length g))
                    (groupby (\<lambda>r. user_id (fst r))
                       (filter (\<lambda>r. float_ge (days_since r) 7 \<and> float_lt (days_since r) 8) ev));
          step3_users = map (\<lambda>(u, n). (u, 1::nat)) (filter (\<lambda>(u, n). 0 < n) week1);
          df = merge_left (\<lambda>r. fst (fst (fst r))) fst
                 (merge_left (\<lambda>r. fst (fst r)) fst
                    (merge_left fst fst users step1) step2_users) step3_users;
          n1 = sum_list (map (\<lambda>r. fillna0 (\<lambda>(u, t, s). s) (snd (fst (fst r)))) df);
          n2 = sum_list (map (\<lambda>r. fillna0 snd (snd (fst r))) df);
          n3 = sum_list (map (\<lambda>r. fillna0 snd (snd r)) df)
      in [\<lparr>step = ''signup'', users = n1, rate_vs_signup = true_divide n1 (Some n1)\<rparr>,
          \<lparr>step = ''activation(5 views in 3d)'', users = n2, rate_vs_signup = true_divide n2 (Some n1)\<rparr>,
          \<lparr>step = ''day7_retention'', users = n3, rate_vs_signup = true_divide n3 (Some n1)\<rparr>])"

section \<open>Experiment engine (ab\_test.py)\<close>

subsection \<open>random\_assign\_users\<close>

text \<open>
  \<^verbatim>\<open>np.random.default_rng(seed)\<close> and \<^verbatim>\<open>Generator.random\<close> are functions of NumPy.  They
  are written out here as NumPy computes them, on machine words: the seed is cut into
  32-bit words and hashed into a pool of four words (\<^verbatim>\<open>SeedSequence\<close>); eight words
  generated from the pool (read as four 64-bit words, low word first) give the 128-bit
  state and increment of the PCG64 generator; a draw advances the state by one step of the
  linear congruential recurrence, takes the XSL-RR output of 64 bits and returns its upper
  53 bits as a double of the interval from 0 to 1.  Such a double is kept as the rational
  it is.
\<close>

definition hashmix :: "32 word \<Rightarrow> 32 word \<Rightarrow> 32 word \<times> 32 word" where
  "hashmix v hash_const =
     (let v = v XOR hash_const;
          hash_const = hash_const * 0x931e8875;
          v = v * hash_const
      in (v XOR drop_bit 16 v, hash_const))"

definition mix :: "32 word \<Rightarrow> 32 word \<Rightarrow> 32 word" where
  "mix x y = (let r = 0xca01f9dd * x - 0x4973f715 * y in r XOR drop_bit 16 r)"

function uint32_words :: "int \<Rightarrow> 32 word list" where
  "uint32_words n = (if n \<le> 0 then [] else of_int (n mod 2 ^ 32) # uint32_words (n div 2 ^ 32))"
  by pat_completeness auto
termination
  by (relation "measure nat") (auto simp: zdiv_mono2 intro!: int_div_less_self)

text \<open>A seed is a non-negative integer; NumPy refuses a negative one.\<close>

definition coerce_to_uint32_array :: "nat \<Rightarrow> 32 word list" where
  "coerce_to_uint32_array n = (if n = 0 then [0] else uint32_words (int n))"

definition mix_into ::
  "32 word \<Rightarrow> nat \<Rightarrow> 32 word list \<times> 32 word \<Rightarrow> 32 word list \<times> 32 word" where
  "mix_into src i_dst st =
     (let (mixer, hash_const) = st;
          (h, hash_const) = hashmix src hash_const
      in (mixer[i_dst := mix (mixer ! i_dst) h], hash_const))"

text \<open>
  The three loops of \<^verbatim>\<open>SeedSequence.mix_entropy\<close> over the pool of four words; the hash
  constant is carried from one call of \<open>hashmix\<close> to the next.
\<close>

definition mix_entropy :: "32 word list \<Rightarrow> 32 word list" where
  "mix_entropy entropy_array =
     (let st = fold (\<lambda>i (mixer, hash_const).
                        let (h, hash_const) =
                              hashmix (if i < length entropy_array then entropy_array ! i else 0)
                                hash_const
                        in (mixer[i := h], hash_const))
                 [0..<4] (replicate 4 0, 0x43b0d7e5);
          st = fold (\<lambda>i_src st.
                        fold (\<lambda>i_dst st.
                                if i_src \<noteq> i_dst then mix_into (fst st ! i_src) i_dst st else st)
                          [0..<4] st)
                 [0..<4] st;
          st = fold (\<lambda>i_src st.
                        fold (\<lambda>i_dst st. mix_into (entropy_array ! i_src) i_dst st) [0..<4] st)
                 [4..<length entropy_array] st
      in fst st)"

definition generate_state :: "32 word list \<Rightarrow> nat \<Rightarrow> 32 word list" where
  "generate_state pool n_words =
     fst (fold (\<lambda>i_dst (state, hash_const).
                  let data_val = pool ! (i_dst mod 4) XOR hash_const;
                      hash_const = hash_const * 0x58f38ded;
                      data_val = data_val * hash_const
                  in (state @ [data_val XOR drop_bit 16 data_val], hash_const))
            [0..<n_words] ([], 0x8b51f9dd))"

definition uint64_view :: "32 word list \<Rightarrow> nat \<Rightarrow> 64 word" where
  "uint64_view ws i = ucast (ws ! (2 * i)) OR push_bit 32 (ucast (ws ! (2 * i + 1)))"

record pcg64 =
  pcg_state :: "128 word"
  pcg_inc :: "128 word"

definition pcg_step :: "pcg64 \<Rightarrow> pcg64" where
  "pcg_step rng =
     rng\<lparr>pcg_state := pcg_state rng * 0x2360ED051FC65DA44385DF649FCCF645 + pcg_inc rng\<rparr>"

definition pcg64_seed :: "nat \<Rightarrow> pcg64" where
  "pcg64_seed seed =
     (let val = generate_state (mix_entropy (coerce_to_uint32_array seed)) 8;
          initstate = push_bit 64 (ucast (uint64_view val 0)) OR ucast (uint64_view val 1);
          initseq = push_bit 64 (ucast (uint64_view val 2)) OR ucast (uint64_view val 3);
          rng = \<lparr>pcg_state = 0, pcg_inc = push_bit 1 initseq OR 1\<rparr>;
          rng = pcg_step rng;
          rng = rng\<lparr>pcg_state := pcg_state rng + initstate\<rparr>
      in pcg_step rng)"

definition pcg_output :: "pcg64 \<Rightarrow> 64 word" where
  "pcg_output rng =
     word_rotr (unat (drop_bit 122 (pcg_state rng)))
       (ucast (drop_bit 64 (pcg_state rng)) XOR ucast (pcg_state rng))"

definition to_double :: "64 word \<Rightarrow> rat" where
  "to_double w = of_int (uint (drop_bit 11 w)) / 9007199254740992"

definition next_double :: "pcg64 \<Rightarrow> rat \<times> pcg64" where
  "next_double rng = (let rng = pcg_step rng in (to_double (pcg_output rng), rng))"

text \<open>\<^verbatim>\<open>rng.random(n)\<close> makes \<open>n\<close> draws in turn.\<close>

fun rng_random :: "nat \<Rightarrow> pcg64 \<Rightarrow> rat list \<times> pcg64" where
  "rng_random 0 rng = ([], rng)"
| "rng_random (Suc n) rng =
     (let (d, rng) = next_double rng; (ds, rng) = rng_random n rng in (d # ds, rng))"

text \<open>
  \<^verbatim>\<open>default_rng\<close> with an integer seed computes the generator from the seed alone; with no
  seed it takes 128 bits from the operating system, which are an input \<open>os_entropy\<close> of the
  model.
\<close>

definition default_rng :: "nat \<Rightarrow> nat option \<Rightarrow> pcg64" where
  "default_rng os_entropy seed =
     pcg64_seed (case seed of None \<Rightarrow> os_entropy mod 2 ^ 128 | Some s \<Rightarrow> s)"

text \<open>
  The assignment table as the list of its rows \<^verbatim>\<open>(user_id, variant)\<close>.  The call runs in
  an environment that holds the entropy of the operating system, and hands it to
  \<^verbatim>\<open>default_rng\<close> together with its seed.  The treatment probability is a double, kept as
  the rational it is, so that the comparison with a draw is exact.
\<close>

definition random_assign_users ::
  "nat \<Rightarrow> int list \<Rightarrow> nat \<Rightarrow> rat \<Rightarrow> (int \<times> string) list" where
  "random_assign_users os_entropy users' seed p_treat =
     (let rng = default_rng os_entropy (Some seed);
          mask = map (\<lambda>d. d < p_treat) (fst (rng_random (length users') rng))
      in zip users' (map (\<lambda>m. if m then ''T'' else ''C'') mask))"

text \<open>
  The draw of the user at position \<open>i\<close> (from 0), in the words of the specification: the
  output of the generator seeded with the seed after \<open>i + 1\<close> steps.
\<close>

definition seeded_draw :: "nat \<Rightarrow> nat \<Rightarrow> rat" where
  "seeded_draw seed i = to_double (pcg_output ((pcg_step ^^ Suc i) (pcg64_seed seed)))"

subsection \<open>srm\_check\<close>

text \<open>
  \<^verbatim>\<open>scipy.stats.chi2.cdf(x, df=1)\<close> is a function of the SciPy library: the distribution
  function of the chi-square distribution with 1 degree of freedom, which is
  \<open>erf (sqrt (x / 2))\<close> for positive \<open>x\<close> and 0 otherwise.  It is taken here in exact real
  arithmetic, with the error function given by its power series
  \<open>erf x = 2 / sqrt pi * (x - x\<^sup>3 / 3 + x\<^sup>5 / 10 - \<dots>)\<close>.
\<close>

definition erf_coeff :: "nat \<Rightarrow> real" where
  "erf_coeff n = (if even n then 0 else (- 1) ^ ((n - 1) div 2) / (fact ((n - 1) div 2) * real n))"

definition erf_series :: "real \<Rightarrow> real" where
  "erf_series x = (\<Sum>n. erf_coeff n * x ^ n)"

definition erf :: "real \<Rightarrow> real" where
  "erf x = 2 / sqrt pi * erf_series x"

definition chi2_cdf :: "real \<Rightarrow> real" where
  "chi2_cdf x = (if x \<le> 0 then 0 else erf (sqrt (x / 2)))"

text \<open>
  The assignment table is the list of its rows \<^verbatim>\<open>(user_id, variant)\<close>.  The statistic is
  computed over the reals; with no \<^verbatim>\<open>T\<close> and no \<^verbatim>\<open>C\<close> row the expected counts are 0, the
  quotients are \<^verbatim>\<open>0/0\<close> and the result is NaN.
\<close>

definition srm_check :: "(int \<times> string) list \<Rightarrow> real float64" where
  "srm_check assignments =
     (let nT = length (filter (\<lambda>r. snd r = ''T'') assignments);
          nC = length (filter (\<lambda>r. snd r = ''C'') assignments);
          total = nT + nC;
          expected = 0.5 * real total
      in if expected = 0 then NaN
         else let chi2 = (real nT - expected)\<^sup>2 / expected + (real nC - expected)\<^sup>2 / expected
              in Fin (1 - chi2_cdf chi2))"

text \<open>
  The two-cell goodness-of-fit statistic against an even split, in the words of the
  specification: the sum over the two cells of \<open>(observed - expected)\<^sup>2 / expected\<close>, with
  both expected counts half of the total.
\<close>

definition chi2_statistic :: "nat \<Rightarrow> nat \<Rightarrow> real" where
  "chi2_statistic nT nC =
     (real nT - real (nT + nC) / 2)\<^sup>2 / (real (nT + nC) / 2)
     + (real nC - real (nT + nC) / 2)\<^sup>2 / (real (nT + nC) / 2)"

text \<open>The partial sums of the series of the error function, without the factor.\<close>

definition erf_poly :: "nat \<Rightarrow> real \<Rightarrow> real" where
  "erf_poly n x = (\<Sum>m<n. (- 1) ^ m / (fact m * real (2 * m + 1)) * x ^ (2 * m + 1))"

subsection \<open>user\_metric\<close>

definition user_metric :: "event_row list \<Rightarrow> int \<Rightarrow> (int \<times> nat) list" where
  "user_metric events window_days =
     (let ev = merge_left user_id fst events (first_ts events);
          in_win = filter (\<lambda>r. event (fst r) = ''view''
                              \<and> float_le (days_since r) (of_int window_days)) ev
      in map (\<lambda>(u, g). (u, length g)) (groupby (\<lambda>r. user_id (fst r)) in_win))"

text \<open>
  The metric in the words of the specification: \<open>t0_of\<close> is the first timestamp among the
  events of a user, \<open>views_in_window\<close> the number of \<^verbatim>\<open>view\<close> events of the user with a
  timestamp in the closed interval from \<open>t0\<close> to \<open>t0\<close> plus \<open>W\<close> days.
\<close>

definition t0_of :: "event_row list \<Rightarrow> int \<Rightarrow> int" where
  "t0_of events u = Min (ts ` {e \<in> set events. user_id e = u})"

definition views_in_window :: "event_row list \<Rightarrow> int \<Rightarrow> int \<Rightarrow> nat" where
  "views_in_window events W u =
     length (filter (\<lambda>e. user_id e = u \<and> event e = ''view''
                        \<and> t0_of events u \<le> ts e \<and> ts e \<le> t0_of events u + 86400 * W) events)"

section \<open>Descriptions of the outputs\<close>

text \<open>
  The cohort of a user is the earliest period start among the user's events;
  \<open>active_in\<close> counts the distinct users of cohort \<open>c\<close> with an event in period \<open>p\<close>;
  \<open>cohort_keys\<close> lists the (cohort, period) pairs that occur, in ascending order, and
  \<open>cohort_row_of\<close> is the output row of such a pair.  \<open>funnel_users\<close> is the frame
  \<^verbatim>\<open>users\<close> of the funnel: one row per user, with the user's first timestamp.
\<close>

definition cohort_of :: "(int \<Rightarrow> int) \<Rightarrow> event_row list \<Rightarrow> int \<Rightarrow> int" where
  "cohort_of P events u = Min (P ` ts ` {e \<in> set events. user_id e = u})"

definition active_in :: "(int \<Rightarrow> int) \<Rightarrow> event_row list \<Rightarrow> int \<Rightarrow> int \<Rightarrow> nat" where
  "active_in P events c p =
     length (remdups (map user_id
       (filter (\<lambda>e. cohort_of P events (user_id e) = c \<and> P (ts e) = p) events)))"

definition cohort_keys :: "(int \<Rightarrow> int) \<Rightarrow> event_row list \<Rightarrow> (int \<times> int) list" where
  "cohort_keys P events =
     sort (remdups (map (\<lambda>e. (cohort_of P events (user_id e), P (ts e))) events))"

definition cohort_row_of :: "(int \<Rightarrow> int) \<Rightarrow> event_row list \<Rightarrow> int \<times> int \<Rightarrow> cohort_row" where
  "cohort_row_of P events k =
     \<lparr>cohort = fst k, period = snd k, active_users = active_in P events (fst k) (snd k),
      cohort_size = Some (active_in P events (fst k) (fst k)),
      retention_rate = true_divide (active_in P events (fst k) (snd k))
                         (Some (active_in P events (fst k) (fst k)))\<rparr>"

definition funnel_users :: "event_row list \<Rightarrow> (int \<times> int option) list" where
  "funnel_users events = drop_duplicates (map (\<lambda>e. (user_id e, Some (t0_of events (user_id e)))) events)"

section \<open>Example tables\<close>

text \<open>Assignment tables with 500 and 500, and with 900 and 100 rows.\<close>

definition srm_balanced :: "(int \<times> string) list" where
  "srm_balanced = map (\<lambda>i. (int i, ''T'')) [0..<500] @ map (\<lambda>i. (int i, ''C'')) [500..<1000]"

definition srm_skewed :: "(int \<times> string) list" where
  "srm_skewed = map (\<lambda>i. (int i, ''T'')) [0..<900] @ map (\<lambda>i. (int i, ''C'')) [900..<1000]"

definition ratings_example :: "rating_row list" where
  "ratings_example =
     [\<lparr>userId = 2, movieId = 10, rating = 5, timestamp = 900000\<rparr>,
      \<lparr>userId = 1, movieId = 10, rating = 3, timestamp = 100\<rparr>,
      \<lparr>userId = 1, movieId = 11, rating = 4, timestamp = 700000\<rparr>,
      \<lparr>userId = 2, movieId = 12, rating = 9 / 2, timestamp = 1000\<rparr>]"

definition events_example :: "event_row list" where
  "events_example =
     [\<lparr>user_id = 1, item_id = 10, ts = 100, event = ''view''\<rparr>,
      \<lparr>user_id = 2, item_id = 10, ts = 200, event = ''view''\<rparr>,
      \<lparr>user_id = 1, item_id = 11, ts = 200, event = ''view''\<rparr>,
      \<lparr>user_id = 1, item_id = 12, ts = 300, event = ''view''\<rparr>,
      \<lparr>user_id = 1, item_id = 13, ts = 400, event = ''view''\<rparr>,
      \<lparr>user_id = 1, item_id = 14, ts = 500, event = ''view''\<rparr>,
      \<lparr>user_id = 1, item_id = 15, ts = 604950, event = ''like''\<rparr>,
      \<lparr>user_id = 3, item_id = 11, ts = 700100, event = ''like''\<rparr>,
      \<lparr>user_id = 2, item_id = 16, ts = 1000000, event = ''view''\<rparr>]"

section \<open>Properties of the event deriver\<close>

lemma event_to_event [simp]: "event (to_event name r) = name"
  by (simp add: to_event_def)

lemma ts_to_event [simp]: "ts (to_event name r) = timestamp r"
  by (simp add: to_event_def)

lemma user_id_to_event [simp]: "user_id (to_event name r) = userId r"
  by (simp add: to_event_def)

lemma mset_prepare_events:
  "mset (prepare_events ratings) =
     image_mset (to_event ''view'') (mset ratings)
     + image_mset (to_event ''like'') (filter_mset (\<lambda>r. 4 \<le> rating r) (mset ratings))
     + image_mset (to_event ''comment'') (filter_mset (\<lambda>r. 9 / 2 \<le> rating r) (mset ratings))"
  by (simp add: prepare_events_def Let_def)

lemma set_prepare_events:
  "set (prepare_events ratings) =
     to_event ''view'' ` set ratings
     \<union> to_event ''like'' ` {r \<in> set ratings. 4 \<le> rating r}
     \<union> to_event ''comment'' ` {r \<in> set ratings. 9 / 2 \<le> rating r}"
  by (auto simp add: prepare_events_def Let_def)

lemma filter_event_map_same:
  "filter (\<lambda>e. event e = name) (map (to_event name) rs) = map (to_event name) rs"
  by (induction rs) simp_all

lemma filter_event_map_other:
  "name' \<noteq> name \<Longrightarrow> filter (\<lambda>e. event e = name) (map (to_event name') rs) = []"
  by (induction rs) simp_all

lemma length_filter_sort_key:
  "length (filter P (sort_key f xs)) = length (filter P xs)"
proof -
  have "mset (filter P (sort_key f xs)) = mset (filter P xs)"
    by simp
  then show ?thesis
    by (metis size_mset)
qed

text \<open>
  C1.  The event log holds exactly the derived events: for every rating row one
  \<^verbatim>\<open>view\<close>, for every rating row with rating at least 4 one \<^verbatim>\<open>like\<close>, for every rating row
  with rating at least 4.5 one \<^verbatim>\<open>comment\<close>, each with the user, the item and the timestamp
  of its rating row (an equation of multisets, so multiplicities are exact).  Hence the
  number of \<^verbatim>\<open>view\<close> events is the number of rating rows, the number of \<^verbatim>\<open>like\<close> events
  the number of ratings at least 4, the number of \<^verbatim>\<open>comment\<close> events the number of
  ratings at least 4.5; and the log is sorted by timestamp, ascending.
\<close>

theorem prepare_events_derives:
  "mset (prepare_events ratings) =
     image_mset (\<lambda>r. \<lparr>user_id = userId r, item_id = movieId r, ts = timestamp r,
                        event = ''view''\<rparr>) (mset ratings)
     + image_mset (\<lambda>r. \<lparr>user_id = userId r, item_id = movieId r, ts = timestamp r,
                          event = ''like''\<rparr>)
         (filter_mset (\<lambda>r. 4 \<le> rating r) (mset ratings))
     + image_mset (\<lambda>r. \<lparr>user_id = userId r, item_id = movieId r, ts = timestamp r,
                          event = ''comment''\<rparr>)
         (filter_mset (\<lambda>r. 9 / 2 \<le> rating r) (mset ratings))
   \<and> length (filter (\<lambda>e. event e = ''view'') (prepare_events ratings)) = length ratings
   \<and> length (filter (\<lambda>e. event e = ''like'') (prepare_events ratings))
       = length (filter (\<lambda>r. 4 \<le> rating r) ratings)
   \<and> length (filter (\<lambda>e. event e = ''comment'') (prepare_events ratings))
       = length (filter (\<lambda>r. 9 / 2 \<le> rating r) ratings)
   \<and> sorted (map ts (prepare_events ratings))"
proof -
  have events: "mset (prepare_events ratings) =
     image_mset (\<lambda>r. \<lparr>user_id = userId r, item_id = movieId r, ts = timestamp r,
                        event = ''view''\<rparr>) (mset ratings)
     + image_mset (\<lambda>r. \<lparr>user_id = userId r, item_id = movieId r, ts = timestamp r,
                          event = ''like''\<rparr>)
         (filter_mset (\<lambda>r. 4 \<le> rating r) (mset ratings))
     + image_mset (\<lambda>r. \<lparr>user_id = userId r, item_id = movieId r, ts = timestamp r,
                          event = ''comment''\<rparr>)
         (filter_mset (\<lambda>r. 9 / 2 \<le> rating r) (mset ratings))"
    unfolding mset_prepare_events to_event_def [abs_def] by (rule refl)
  have counts: "length (filter (\<lambda>e. event e = ''view'') (prepare_events ratings)) = length ratings"
    "length (filter (\<lambda>e. event e = ''like'') (prepare_events ratings))
       = length (filter (\<lambda>r. 4 \<le> rating r) ratings)"
    "length (filter (\<lambda>e. event e = ''comment'') (prepare_events ratings))
       = length (filter (\<lambda>r. 9 / 2 \<le> rating r) ratings)"
    by (simp_all add: prepare_events_def Let_def length_filter_sort_key
        filter_event_map_same filter_event_map_other)
  have "sorted (map ts (prepare_events ratings))"
    by (simp add: prepare_events_def Let_def)
  with counts events show ?thesis
    by blast
qed

section \<open>Properties of the table operations and of user\_metric\<close>

lemma map_fst_groupby: "map fst (groupby key xs) = sort (remdups (map key xs))"
  by (simp add: groupby_def comp_def)

lemma distinct_groupby: "distinct (map fst (groupby key xs))"
  by (simp add: map_fst_groupby)

lemma filter_key_distinct:
  "distinct (map kb rs) \<Longrightarrow> b \<in> set rs \<Longrightarrow> filter (\<lambda>x. kb x = kb b) rs = [b]"
proof (induction rs)
  case Nil
  then show ?case by simp
next
  case (Cons x xs)
  show ?case
  proof (cases "kb x = kb b")
    case True
    with Cons.prems have "x = b"
      by (auto simp: image_iff)
    moreover from Cons.prems True have "filter (\<lambda>x. kb x = kb b) xs = []"
      by (auto simp: filter_empty_conv image_iff)
    ultimately show ?thesis by simp
  next
    case False
    with Cons show ?thesis by auto
  qed
qed

lemma first_ts_eq:
  "first_ts ev = map (\<lambda>u. (u, t0_of ev u)) (sort (remdups (map user_id ev)))"
proof -
  have "set (map ts (filter (\<lambda>x. user_id x = u) ev)) = ts ` {e \<in> set ev. user_id e = u}" for u
    by auto
  then show ?thesis
    by (simp add: first_ts_def groupby_def comp_def t0_of_def del: set_map)
qed

lemma concat_map_single:
  "(\<And>a. a \<in> set ls \<Longrightarrow> g a = [h a]) \<Longrightarrow> concat (map g ls) = map h ls"
  by (induction ls) auto

lemma merge_left_unique:
  assumes "distinct (map kb rs)" and "\<And>a. a \<in> set ls \<Longrightarrow> f a \<in> set rs \<and> kb (f a) = ka a"
  shows "merge_left ka kb ls rs = map (\<lambda>a. (a, Some (f a))) ls"
  unfolding merge_left_def
proof (rule concat_map_single)
  fix a assume "a \<in> set ls"
  from assms(2)[OF this] have "f a \<in> set rs" "ka a = kb (f a)" by simp_all
  with filter_key_distinct[OF assms(1), of "f a"]
  show "(case filter (\<lambda>b. kb b = ka a) rs of [] \<Rightarrow> [(a, None)] | ms \<Rightarrow> map (\<lambda>b. (a, Some b)) ms)
        = [(a, Some (f a))]"
    by simp
qed

lemma merge_left_first_ts:
  "merge_left user_id fst ev (first_ts ev) = map (\<lambda>e. (e, Some (user_id e, t0_of ev (user_id e)))) ev"
proof (rule merge_left_unique)
  show "distinct (map fst (first_ts ev))"
    by (simp add: first_ts_eq comp_def)
next
  fix a assume "a \<in> set ev"
  then show "(user_id a, t0_of ev (user_id a)) \<in> set (first_ts ev) \<and> fst (user_id a, t0_of ev (user_id a)) = user_id a"
    by (auto simp: first_ts_eq)
qed

lemma t0_of_le: "e \<in> set ev \<Longrightarrow> t0_of ev (user_id e) \<le> ts e"
  by (auto simp: t0_of_def intro!: Min_le)

lemma float_le_days_since:
  "float_le (days_since (e, Some (u, t))) (of_int W) \<longleftrightarrow> ts e \<le> t + 86400 * W"
proof -
  have "(of_int (ts e - t) :: rat) / 86400 \<le> of_int W \<longleftrightarrow> (of_int (ts e - t) :: rat) \<le> of_int (W * 86400)"
    by (simp add: divide_le_eq)
  also have "\<dots> \<longleftrightarrow> ts e - t \<le> W * 86400"
    by (simp only: of_int_le_iff)
  finally show ?thesis by (simp add: algebra_simps)
qed

lemma groupby_size:
  "map (\<lambda>(u, g). (u, length g)) (groupby key xs)
   = map (\<lambda>k. (k, length (filter (\<lambda>x. key x = k) xs))) (sort (remdups (map key xs)))"
  by (simp add: groupby_def comp_def)

lemma sort_remdups_filter:
  fixes key :: "'a \<Rightarrow> 'k::linorder"
  shows "sort (remdups (map key (filter P xs)))
    = filter (\<lambda>k. 0 < length (filter (\<lambda>x. key x = k \<and> P x) xs)) (sort (remdups (map key xs)))"
proof (rule sorted_distinct_set_unique)
  show "set (sort (remdups (map key (filter P xs))))
    = set (filter (\<lambda>k. 0 < length (filter (\<lambda>x. key x = k \<and> P x) xs)) (sort (remdups (map key xs))))"
    by (auto simp: filter_empty_conv intro: rev_image_eqI)
qed (simp_all add: sorted_wrt_filter)

lemma user_metric_eq:
  "user_metric events W =
     map (\<lambda>u. (u, views_in_window events W u))
       (filter (\<lambda>u. 0 < views_in_window events W u) (sort (remdups (map user_id events))))"
proof -
  define Q where "Q = (\<lambda>e::event_row. event e = ''view'' \<and> ts e \<le> t0_of events (user_id e) + 86400 * W)"
  define inwin where "inwin = filter Q events"
  have 1: "filter (\<lambda>r. event (fst r) = ''view'' \<and> float_le (days_since r) (of_int W))
             (map (\<lambda>e. (e, Some (user_id e, t0_of events (user_id e)))) events)
           = map (\<lambda>e. (e, Some (user_id e, t0_of events (user_id e)))) inwin"
    by (simp add: filter_map comp_def float_le_days_since inwin_def Q_def del: days_since.simps)
  have 2: "user_metric events W
           = map (\<lambda>k. (k, length (filter (\<lambda>e. user_id e = k) inwin))) (sort (remdups (map user_id inwin)))"
    unfolding user_metric_def Let_def merge_left_first_ts 1 groupby_size
    by (simp add: comp_def filter_map)
  have 3: "length (filter (\<lambda>e. user_id e = k \<and> Q e) events) = views_in_window events W k" for k
  proof -
    have "filter (\<lambda>e. user_id e = k \<and> Q e) events
          = filter (\<lambda>e. user_id e = k \<and> event e = ''view''
                        \<and> t0_of events k \<le> ts e \<and> ts e \<le> t0_of events k + 86400 * W) events"
      by (rule filter_cong) (auto simp: Q_def dest: t0_of_le)
    then show ?thesis
      by (simp add: views_in_window_def)
  qed
  have 4: "length (filter (\<lambda>e. user_id e = k) inwin) = views_in_window events W k" for k
    using 3[of k] by (simp add: inwin_def conj_commute)
  have 5: "sort (remdups (map user_id inwin))
           = filter (\<lambda>u. 0 < views_in_window events W u) (sort (remdups (map user_id events)))"
    unfolding inwin_def sort_remdups_filter by (simp only: 3)
  show ?thesis
    unfolding 2 5 by (simp add: 4)
qed


text \<open>
  C8.  For every event log and every window \<open>W\<close> in days, the metric table is, in ascending
  order of user, the rows \<open>(u, views_in_window events W u)\<close> of the users \<open>u\<close> of the log for
  which that count is positive: the value of a user is the number of the user's \<^verbatim>\<open>view\<close>
  events with a timestamp in the closed interval from the user's own first timestamp
  \<open>t0\<close> to \<open>t0\<close> plus \<open>W\<close> days.  A user with no such event has no row.
\<close>

theorem user_metric_counts_views_in_window:
  "user_metric events W =
     map (\<lambda>u. (u, views_in_window events W u))
       (filter (\<lambda>u. 0 < views_in_window events W u) (sort (remdups (map user_id events))))"
  by (rule user_metric_eq)

lemma t0_of_attained:
  assumes "u \<in> user_id ` set ev"
  shows "\<exists>e\<in>set ev. user_id e = u \<and> ts e = t0_of ev u"
proof -
  let ?S = "ts ` {e \<in> set ev. user_id e = u}"
  from assms have "finite ?S" "?S \<noteq> {}" by auto
  then have "Min ?S \<in> ?S" by (rule Min_in)
  then show ?thesis by (auto simp: t0_of_def)
qed

lemma views_in_window_pos:
  assumes "0 \<le> W" and "e \<in> set ev" and "event e = ''view''" and "ts e = t0_of ev (user_id e)"
  shows "0 < views_in_window ev W (user_id e)"
proof -
  from assms have "e \<in> set (filter (\<lambda>x. user_id x = user_id e \<and> event x = ''view''
        \<and> t0_of ev (user_id e) \<le> ts x \<and> ts x \<le> t0_of ev (user_id e) + 86400 * W) ev)"
    by simp
  then show ?thesis
    unfolding views_in_window_def by (rule length_pos_if_in_set)
qed

lemma prepare_events_view:
  assumes "e \<in> set (prepare_events rs)"
  shows "\<exists>v\<in>set (prepare_events rs). user_id v = user_id e \<and> ts v = ts e \<and> event v = ''view''"
proof -
  from assms obtain name r where "r \<in> set rs" "e = to_event name r"
    by (auto simp: set_prepare_events)
  then have "to_event ''view'' r \<in> set (prepare_events rs)"
    "user_id (to_event ''view'' r) = user_id e" "ts (to_event ''view'' r) = ts e"
    by (auto simp: set_prepare_events)
  then show ?thesis
    by (intro bexI[of _ "to_event ''view'' r"]) simp_all
qed

lemma prepare_events_first_view:
  assumes "u \<in> user_id ` set (prepare_events rs)" and "0 \<le> W"
  shows "0 < views_in_window (prepare_events rs) W u"
proof -
  from t0_of_attained[OF assms(1)] obtain e where e: "e \<in> set (prepare_events rs)"
    "user_id e = u" "ts e = t0_of (prepare_events rs) u" by blast
  from prepare_events_view[OF e(1)] obtain v where v: "v \<in> set (prepare_events rs)"
    "user_id v = user_id e" "ts v = ts e" "event v = ''view''" by blast
  with e have "ts v = t0_of (prepare_events rs) (user_id v)" by simp
  from views_in_window_pos[OF assms(2) v(1) v(4) this] v(2) e(2) show ?thesis by simp
qed

lemma user_id_prepare_events: "user_id ` set (prepare_events rs) = userId ` set rs"
proof (intro equalityI subsetI)
  fix u assume "u \<in> user_id ` set (prepare_events rs)"
  then obtain name r where "r \<in> set rs" "u = user_id (to_event name r)"
    by (auto simp: set_prepare_events)
  then show "u \<in> userId ` set rs" by simp
next
  fix u assume "u \<in> userId ` set rs"
  then obtain r where "r \<in> set rs" "u = userId r" by blast
  then have "to_event ''view'' r \<in> set (prepare_events rs)" "u = user_id (to_event ''view'' r)"
    by (simp_all add: set_prepare_events)
  then show "u \<in> user_id ` set (prepare_events rs)" by blast
qed

text \<open>
  C10.  On an event log that the event deriver produced, and for a window of at least 0
  days, the metric table has one row for every distinct user of the log (the users of the
  ratings table), in ascending order of user, and every metric value is at least 1.
\<close>

theorem user_metric_prepared_all_users:
  assumes "0 \<le> W"
  shows "map fst (user_metric (prepare_events rs) W) = sort (remdups (map user_id (prepare_events rs)))
    \<and> user_id ` set (prepare_events rs) = userId ` set rs
    \<and> (\<forall>row\<in>set (user_metric (prepare_events rs) W). 1 \<le> snd row)"
proof -
  let ?ev = "prepare_events rs"
  have pos: "0 < views_in_window ?ev W u" if "u \<in> set (sort (remdups (map user_id ?ev)))" for u
    using that prepare_events_first_view[OF _ assms, of u rs] by simp
  then have f: "filter (\<lambda>u. 0 < views_in_window ?ev W u) (sort (remdups (map user_id ?ev)))
        = sort (remdups (map user_id ?ev))"
    by (intro filter_True) blast
  have eq: "user_metric ?ev W = map (\<lambda>u. (u, views_in_window ?ev W u)) (sort (remdups (map user_id ?ev)))"
    unfolding user_metric_eq f by (rule refl)
  have 1: "map fst (user_metric ?ev W) = sort (remdups (map user_id ?ev))"
    unfolding eq by (simp add: comp_def)
  have 3: "\<forall>row\<in>set (user_metric ?ev W). 1 \<le> snd row"
  proof
    fix row assume "row \<in> set (user_metric ?ev W)"
    then obtain u where "u \<in> set (sort (remdups (map user_id ?ev)))" "row = (u, views_in_window ?ev W u)"
      unfolding eq by auto
    with pos[of u] show "1 \<le> snd row" by simp
  qed
  from 1 user_id_prepare_events 3 show ?thesis by blast
qed


theorem user_metric_prepared_all_users_witness:
  "(0::int) \<le> 7
   \<and> map fst (user_metric (prepare_events ratings_example) 7) = [1, 2]
   \<and> 1 \<le> snd (user_metric (prepare_events ratings_example) 7 ! 0)
   \<and> 1 \<le> snd (user_metric (prepare_events ratings_example) 7 ! 1)"
proof -
  have h: "(0::int) \<le> 7" by simp
  note t = user_metric_prepared_all_users [OF h, of ratings_example]
  have "sort (remdups (map user_id (prepare_events ratings_example))) = [1, 2]"
    by code_simp
  with t have m: "map fst (user_metric (prepare_events ratings_example) 7) = [1, 2]"
    by simp
  from arg_cong [OF m, of length]
  have "length (user_metric (prepare_events ratings_example) 7) = 2"
    by simp
  then have "user_metric (prepare_events ratings_example) 7 ! 0
               \<in> set (user_metric (prepare_events ratings_example) 7)"
    "user_metric (prepare_events ratings_example) 7 ! 1
               \<in> set (user_metric (prepare_events ratings_example) 7)"
    by simp_all
  with t have "1 \<le> snd (user_metric (prepare_events ratings_example) 7 ! 0)"
    "1 \<le> snd (user_metric (prepare_events ratings_example) 7 ! 1)"
    by blast+
  with h m show ?thesis
    by simp
qed

section \<open>Properties of build\_cohorts\<close>

lemma cohort_first_eq:
  "map (\<lambda>(u, g). (u, Min (set (map snd g))))
     (groupby (\<lambda>r. user_id (fst r)) (map (\<lambda>e. (e, P (ts e))) events))
   = map (\<lambda>u. (u, cohort_of P events u)) (sort (remdups (map user_id events)))"
proof -
  have "set (map snd (filter (\<lambda>x. user_id (fst x) = u) (map (\<lambda>e. (e, P (ts e))) events)))
        = P ` ts ` {e \<in> set events. user_id e = u}" for u
    by (auto simp: image_iff)
  then show ?thesis
    by (simp add: groupby_def comp_def cohort_of_def del: set_map set_filter)
qed

lemma cohort_merge_eq:
  "merge_left (\<lambda>r. user_id (fst r)) fst (map (\<lambda>e. (e, P (ts e))) events)
     (map (\<lambda>u. (u, cohort_of P events u)) (sort (remdups (map user_id events))))
   = map (\<lambda>r. (r, Some (user_id (fst r), cohort_of P events (user_id (fst r)))))
       (map (\<lambda>e. (e, P (ts e))) events)"
  by (rule merge_left_unique) (auto simp: comp_def)

lemma cohort_keyed_eq:
  "List.map_filter (\<lambda>((e, p), m). case m of None \<Rightarrow> None | Some (u, c) \<Rightarrow> Some (e, c, p))
     (map (\<lambda>r. (r, Some (user_id (fst r), cohort_of P events (user_id (fst r)))))
        (map (\<lambda>e. (e, P (ts e))) events))
   = map (\<lambda>e. (e, cohort_of P events (user_id e), P (ts e))) events"
  by (simp add: List.map_filter_def comp_def)

lemma cohort_retention_eq:
  "map (\<lambda>(k, g). (k, length (remdups (map (\<lambda>r. user_id (fst r)) g))))
     (groupby snd (map (\<lambda>e. (e, cohort_of P events (user_id e), P (ts e))) events))
   = map (\<lambda>k. (k, active_in P events (fst k) (snd k))) (cohort_keys P events)"
  by (simp add: groupby_def comp_def cohort_keys_def active_in_def filter_map prod_eq_iff)

lemma cohort_of_attained:
  assumes "e \<in> set events"
  shows "\<exists>e'\<in>set events. user_id e' = user_id e \<and> P (ts e') = cohort_of P events (user_id e)"
proof -
  let ?S = "P ` ts ` {x \<in> set events. user_id x = user_id e}"
  from assms have "finite ?S" "?S \<noteq> {}" by auto
  then have "Min ?S \<in> ?S" by (rule Min_in)
  then obtain x where "x \<in> set events" "user_id x = user_id e" "P (ts x) = Min ?S"
    by (auto simp: image_iff)
  then show ?thesis
    unfolding cohort_of_def by blast
qed

lemma cohort_keys_iff:
  "(c, p) \<in> set (cohort_keys P events)
   \<longleftrightarrow> (\<exists>e\<in>set events. cohort_of P events (user_id e) = c \<and> P (ts e) = p)"
  by (auto simp: cohort_keys_def image_iff)

lemma cohort_keys_diag:
  assumes "(c, p) \<in> set (cohort_keys P events)"
  shows "(c, c) \<in> set (cohort_keys P events)"
proof -
  from assms obtain e where e: "e \<in> set events" "cohort_of P events (user_id e) = c"
    unfolding cohort_keys_iff by blast
  from cohort_of_attained[OF e(1), of P] obtain e' where "e' \<in> set events"
    "user_id e' = user_id e" "P (ts e') = cohort_of P events (user_id e)" by blast
  with e(2) show ?thesis
    unfolding cohort_keys_iff by (intro bexI[of _ e']) simp_all
qed

lemma cohort_sizes_eq:
  "map (\<lambda>((c, p), n). (c, n))
     (filter (\<lambda>((c, p), n). p = c) (map (\<lambda>k. (k, active_in P events (fst k) (snd k))) (cohort_keys P events)))
   = map (\<lambda>k. (fst k, active_in P events (fst k) (fst k)))
       (filter (\<lambda>k. snd k = fst k) (cohort_keys P events))"
  by (simp add: filter_map comp_def split_beta)

lemma cohort_sizes_distinct:
  "distinct (map fst (filter (\<lambda>k. snd k = fst k) (cohort_keys P events)))"
proof -
  have "distinct (cohort_keys P events)"
    by (simp add: cohort_keys_def)
  then have "distinct (filter (\<lambda>k. snd k = fst k) (cohort_keys P events))"
    by simp
  moreover have "inj_on fst (set (filter (\<lambda>k. snd k = fst k) (cohort_keys P events)))"
    by (auto simp: inj_on_def)
  ultimately show ?thesis
    by (simp add: distinct_map)
qed

lemma cohort_out_eq:
  "merge_left (\<lambda>r. fst (fst r)) fst
     (map (\<lambda>k. (k, active_in P events (fst k) (snd k))) (cohort_keys P events))
     (map (\<lambda>k. (fst k, active_in P events (fst k) (fst k)))
        (filter (\<lambda>k. snd k = fst k) (cohort_keys P events)))
   = map (\<lambda>r. (r, Some (fst (fst r), active_in P events (fst (fst r)) (fst (fst r)))))
       (map (\<lambda>k. (k, active_in P events (fst k) (snd k))) (cohort_keys P events))"
proof (rule merge_left_unique)
  show "distinct (map fst (map (\<lambda>k. (fst k, active_in P events (fst k) (fst k)))
        (filter (\<lambda>k. snd k = fst k) (cohort_keys P events))))"
    using cohort_sizes_distinct[of P events] by (simp add: comp_def)
next
  fix a assume "a \<in> set (map (\<lambda>k. (k, active_in P events (fst k) (snd k))) (cohort_keys P events))"
  then obtain c p where "(c, p) \<in> set (cohort_keys P events)" "fst (fst a) = c"
    by auto
  then have "(c, c) \<in> set (filter (\<lambda>k. snd k = fst k) (cohort_keys P events))"
    by (auto dest: cohort_keys_diag)
  then have "(\<lambda>k. (fst k, active_in P events (fst k) (fst k))) (c, c)
      \<in> set (map (\<lambda>k. (fst k, active_in P events (fst k) (fst k)))
        (filter (\<lambda>k. snd k = fst k) (cohort_keys P events)))"
    unfolding set_map by (rule imageI)
  with \<open>fst (fst a) = c\<close>
  show "(fst (fst a), active_in P events (fst (fst a)) (fst (fst a)))
      \<in> set (map (\<lambda>k. (fst k, active_in P events (fst k) (fst k)))
        (filter (\<lambda>k. snd k = fst k) (cohort_keys P events)))
      \<and> fst (fst (fst a), active_in P events (fst (fst a)) (fst (fst a))) = fst (fst a)"
    by simp
qed

lemma build_cohorts_eq:
  "build_cohorts P events
   = sort_key (\<lambda>r. (cohort r, period r)) (map (cohort_row_of P events) (cohort_keys P events))"
  unfolding build_cohorts_def Let_def cohort_first_eq cohort_merge_eq cohort_keyed_eq
    cohort_retention_eq cohort_sizes_eq cohort_out_eq
  by (simp add: comp_def cohort_row_of_def[abs_def] split_beta del: true_divide.simps)

lemma set_build_cohorts:
  "set (build_cohorts P events) = cohort_row_of P events ` set (cohort_keys P events)"
  by (simp add: build_cohorts_eq)

lemma active_in_card:
  "active_in P events c p
   = card (user_id ` {e \<in> set events. cohort_of P events (user_id e) = c \<and> P (ts e) = p})"
  by (simp add: active_in_def length_remdups_card_conv)

lemma active_in_pos:
  assumes "(c, p) \<in> set (cohort_keys P events)"
  shows "1 \<le> active_in P events c p"
proof -
  from assms obtain e where "e \<in> set events" "cohort_of P events (user_id e) = c" "P (ts e) = p"
    unfolding cohort_keys_iff by blast
  then have "user_id e \<in> user_id ` {e \<in> set events. cohort_of P events (user_id e) = c \<and> P (ts e) = p}"
    by blast
  moreover have "finite (user_id ` {e \<in> set events. cohort_of P events (user_id e) = c \<and> P (ts e) = p})"
    by simp
  ultimately have "0 < card (user_id ` {e \<in> set events. cohort_of P events (user_id e) = c \<and> P (ts e) = p})"
    by (auto simp: card_gt_0_iff)
  then show ?thesis
    by (simp add: active_in_card)
qed

lemma active_in_le_cohort:
  "active_in P events c p \<le> active_in P events c c"
  unfolding active_in_card
proof (rule card_mono)
  show "finite (user_id ` {e \<in> set events. cohort_of P events (user_id e) = c \<and> P (ts e) = c})"
    by simp
next
  show "user_id ` {e \<in> set events. cohort_of P events (user_id e) = c \<and> P (ts e) = p}
      \<subseteq> user_id ` {e \<in> set events. cohort_of P events (user_id e) = c \<and> P (ts e) = c}"
  proof
    fix u assume "u \<in> user_id ` {e \<in> set events. cohort_of P events (user_id e) = c \<and> P (ts e) = p}"
    then obtain e where e: "e \<in> set events" "cohort_of P events (user_id e) = c" "u = user_id e"
      by blast
    from cohort_of_attained[OF e(1), of P] obtain e' where "e' \<in> set events"
      "user_id e' = user_id e" "P (ts e') = cohort_of P events (user_id e)" by blast
    with e have "e' \<in> {e \<in> set events. cohort_of P events (user_id e) = c \<and> P (ts e) = c}"
      "u = user_id e'" by simp_all
    then show "u \<in> user_id ` {e \<in> set events. cohort_of P events (user_id e) = c \<and> P (ts e) = c}"
      by blast
  qed
qed

lemma build_cohorts_row:
  assumes "r \<in> set (build_cohorts P events)"
  obtains c p where "(c, p) \<in> set (cohort_keys P events)" "(c, c) \<in> set (cohort_keys P events)"
    "cohort r = c" "period r = p"
    "active_users r = active_in P events c p"
    "cohort_size r = Some (active_in P events c c)"
    "retention_rate r = Fin (of_nat (active_in P events c p) / of_nat (active_in P events c c))"
    "1 \<le> active_in P events c p" "active_in P events c p \<le> active_in P events c c"
proof -
  from assms obtain k where k: "k \<in> set (cohort_keys P events)" "r = cohort_row_of P events k"
    unfolding set_build_cohorts by blast
  obtain c p where cp: "k = (c, p)" by (cases k)
  with k have key: "(c, p) \<in> set (cohort_keys P events)" by simp
  then have diag: "(c, c) \<in> set (cohort_keys P events)" by (rule cohort_keys_diag)
  from active_in_pos[OF diag] have "active_in P events c c \<noteq> 0" by simp
  with k(2) cp have "retention_rate r = Fin (of_nat (active_in P events c p) / of_nat (active_in P events c c))"
    by (simp add: cohort_row_of_def)
  moreover from k(2) cp have "cohort r = c" "period r = p"
    "active_users r = active_in P events c p"
    "cohort_size r = Some (active_in P events c c)"
    by (simp_all add: cohort_row_of_def)
  ultimately show ?thesis
    using key diag active_in_pos[OF key] active_in_le_cohort[of P events c p] that by blast
qed

lemma build_cohorts_has_row:
  assumes "(c, p) \<in> set (cohort_keys P events)"
  shows "\<exists>r\<in>set (build_cohorts P events). cohort r = c \<and> period r = p"
proof -
  from assms have "cohort_row_of P events (c, p) \<in> set (build_cohorts P events)"
    unfolding set_build_cohorts by (rule imageI)
  moreover have "cohort (cohort_row_of P events (c, p)) = c" "period (cohort_row_of P events (c, p)) = p"
    by (simp_all add: cohort_row_of_def)
  ultimately show ?thesis by blast
qed

lemma build_cohorts_nonempty:
  assumes "events \<noteq> []"
  shows "build_cohorts P events \<noteq> []"
proof -
  from assms have "cohort_keys P events \<noteq> []"
    by (auto simp: cohort_keys_def simp flip: set_empty)
  then have "set (build_cohorts P events) \<noteq> {}"
    by (simp add: set_build_cohorts)
  then show ?thesis
    by auto
qed

lemma build_cohorts_example:
  "build_cohorts week_start events_example =
    [\<lparr>cohort = - 259200, period = - 259200, active_users = 2, cohort_size = Some 2,
        retention_rate = Fin 1\<rparr>,
     \<lparr>cohort = - 259200, period = 345600, active_users = 1, cohort_size = Some 2,
        retention_rate = Fin (1 / 2)\<rparr>,
     \<lparr>cohort = - 259200, period = 950400, active_users = 1, cohort_size = Some 2,
        retention_rate = Fin (1 / 2)\<rparr>,
     \<lparr>cohort = 345600, period = 345600, active_users = 1, cohort_size = Some 1,
        retention_rate = Fin 1\<rparr>]"
  by code_simp

text \<open>
  C5.  For every non-empty event log the cohort table is not empty; every cohort that
  occurs in it has a row at its own starting period (observation period equal to cohort
  period); and in every such row \<^verbatim>\<open>cohort_size\<close> is \<^verbatim>\<open>active_users\<close> and
  \<^verbatim>\<open>retention_rate\<close> is exactly 1.  This holds for every period granularity.
\<close>

theorem build_cohorts_own_period_rate_one:
  assumes "events \<noteq> []"
  shows "build_cohorts P events \<noteq> []
    \<and> (\<forall>r\<in>set (build_cohorts P events).
          (\<exists>r'\<in>set (build_cohorts P events). cohort r' = cohort r \<and> period r' = cohort r)
          \<and> (period r = cohort r \<longrightarrow>
               cohort_size r = Some (active_users r) \<and> retention_rate r = Fin 1))"
proof (intro conjI ballI impI)
  show "build_cohorts P events \<noteq> []"
    using assms by (rule build_cohorts_nonempty)
next
  fix r assume "r \<in> set (build_cohorts P events)"
  then obtain c p where "(c, c) \<in> set (cohort_keys P events)" "cohort r = c"
    by (rule build_cohorts_row)
  with build_cohorts_has_row[of c c P events]
  show "\<exists>r'\<in>set (build_cohorts P events). cohort r' = cohort r \<and> period r' = cohort r"
    by simp
next
  fix r assume r: "r \<in> set (build_cohorts P events)" and own: "period r = cohort r"
  from r obtain c p where *: "cohort r = c" "period r = p"
    "active_users r = active_in P events c p"
    "cohort_size r = Some (active_in P events c c)"
    "retention_rate r = Fin (of_nat (active_in P events c p) / of_nat (active_in P events c c))"
    "1 \<le> active_in P events c p"
    by (rule build_cohorts_row)
  from own * have "p = c" by simp
  with * show "cohort_size r = Some (active_users r)" by simp
  from \<open>p = c\<close> * show "retention_rate r = Fin 1" by simp
qed

theorem build_cohorts_own_period_rate_one_witness:
  "events_example \<noteq> []
   \<and> (\<exists>r\<in>set (build_cohorts week_start events_example).
         period r = cohort r \<and> cohort r = 345600
         \<and> cohort_size r = Some (active_users r) \<and> retention_rate r = Fin 1)"
proof -
  let ?r = "\<lparr>cohort = 345600, period = 345600, active_users = 1, cohort_size = Some 1,
              retention_rate = Fin 1\<rparr>"
  have h: "events_example \<noteq> []"
    by (simp add: events_example_def)
  have r: "?r \<in> set (build_cohorts week_start events_example)"
    by (simp add: build_cohorts_example)
  have own: "period ?r = cohort ?r" "cohort ?r = 345600"
    by simp_all
  from build_cohorts_own_period_rate_one [OF h, of week_start] r own(1)
  have "cohort_size ?r = Some (active_users ?r) \<and> retention_rate ?r = Fin 1"
    by blast
  with h r own show ?thesis
    by blast
qed

text \<open>
  C9.  In every row of the cohort table the cohort size is present, \<^verbatim>\<open>active_users\<close> is
  at most \<^verbatim>\<open>cohort_size\<close>, and \<^verbatim>\<open>retention_rate\<close> is a finite number that is at most 1.
\<close>

theorem build_cohorts_active_le_size:
  "\<forall>r\<in>set (build_cohorts P events).
     \<exists>n q. cohort_size r = Some n \<and> active_users r \<le> n \<and> retention_rate r = Fin q \<and> q \<le> 1"
proof
  fix r assume "r \<in> set (build_cohorts P events)"
  then obtain c p where *: "active_users r = active_in P events c p"
    "cohort_size r = Some (active_in P events c c)"
    "retention_rate r = Fin (of_nat (active_in P events c p) / of_nat (active_in P events c c))"
    "1 \<le> active_in P events c p" "active_in P events c p \<le> active_in P events c c"
    by (rule build_cohorts_row)
  then have "(of_nat (active_in P events c p) :: rat) / of_nat (active_in P events c c) \<le> 1"
    by (simp add: divide_le_eq)
  with * show "\<exists>n q. cohort_size r = Some n \<and> active_users r \<le> n \<and> retention_rate r = Fin q \<and> q \<le> 1"
    by simp
qed

theorem build_cohorts_active_le_size_witness:
  "\<exists>r\<in>set (build_cohorts week_start events_example).
      period r = 950400
      \<and> (\<exists>n q. cohort_size r = Some n \<and> active_users r \<le> n \<and> retention_rate r = Fin q \<and> q \<le> 1)"
proof -
  let ?r = "\<lparr>cohort = - 259200, period = 950400, active_users = 1, cohort_size = Some 2,
              retention_rate = Fin (1 / 2)\<rparr>"
  have r: "?r \<in> set (build_cohorts week_start events_example)"
    by (simp add: build_cohorts_example)
  with build_cohorts_active_le_size [of week_start events_example]
  have "\<exists>n q. cohort_size ?r = Some n \<and> active_users ?r \<le> n \<and> retention_rate ?r = Fin q \<and> q \<le> 1"
    by blast
  moreover have "period ?r = 950400"
    by simp
  ultimately show ?thesis
    using r by blast
qed

text \<open>
  C6, as stated, fails: no epsilon is added to \<^verbatim>\<open>cohort_size\<close>.  In the cohort table of
  the example log the second row has 1 active user in a cohort of 2 and its
  \<^verbatim>\<open>retention_rate\<close> is exactly \<open>1 / 2\<close>, not \<open>1 / (2 + 10\<^sup>-\<^sup>9)\<close>.
\<close>

theorem build_cohorts_epsilon_counterexample:
  "active_users (build_cohorts week_start events_example ! 1) = 1
   \<and> cohort_size (build_cohorts week_start events_example ! 1) = Some 2
   \<and> retention_rate (build_cohorts week_start events_example ! 1) = Fin (1 / 2)
   \<and> retention_rate (build_cohorts week_start events_example ! 1)
       \<noteq> Fin (1 / (2 + 1 / 1000000000))"
  by (simp add: build_cohorts_example)

text \<open>
  C6, amended.  The retention rate is the plain quotient of \<^verbatim>\<open>active_users\<close> by
  \<^verbatim>\<open>cohort_size\<close>, with nothing added to the divisor.  The division never meets a zero or
  missing divisor: in every row of the cohort table \<^verbatim>\<open>cohort_size\<close> is present and at
  least 1, so the rate is a finite number, never NaN and never infinite.
\<close>

theorem build_cohorts_plain_quotient:
  "\<forall>r\<in>set (build_cohorts P events).
     \<exists>n. cohort_size r = Some n \<and> 1 \<le> n
       \<and> retention_rate r = Fin (of_nat (active_users r) / of_nat n)"
proof
  fix r assume "r \<in> set (build_cohorts P events)"
  then obtain c p where *: "active_users r = active_in P events c p"
    "cohort_size r = Some (active_in P events c c)"
    "retention_rate r = Fin (of_nat (active_in P events c p) / of_nat (active_in P events c c))"
    "1 \<le> active_in P events c p" "active_in P events c p \<le> active_in P events c c"
    by (rule build_cohorts_row)
  then have "1 \<le> active_in P events c c" by linarith
  with * show "\<exists>n. cohort_size r = Some n \<and> 1 \<le> n
       \<and> retention_rate r = Fin (of_nat (active_users r) / of_nat n)"
    by simp
qed

theorem build_cohorts_plain_quotient_witness:
  "\<exists>r\<in>set (build_cohorts week_start events_example).
      period r = 345600 \<and> cohort r = - 259200
      \<and> (\<exists>n. cohort_size r = Some n \<and> 1 \<le> n
            \<and> retention_rate r = Fin (of_nat (active_users r) / of_nat n))"
proof -
  let ?r = "\<lparr>cohort = - 259200, period = 345600, active_users = 1, cohort_size = Some 2,
              retention_rate = Fin (1 / 2)\<rparr>"
  have r: "?r \<in> set (build_cohorts week_start events_example)"
    by (simp add: build_cohorts_example)
  with build_cohorts_plain_quotient [of week_start events_example]
  have "\<exists>n. cohort_size ?r = Some n \<and> 1 \<le> n
          \<and> retention_rate ?r = Fin (of_nat (active_users ?r) / of_nat n)"
    by blast
  moreover have "period ?r = 345600" "cohort ?r = - 259200"
    by simp_all
  ultimately show ?thesis
    using r by blast
qed

section \<open>Properties of build\_funnel\<close>

lemma merge_left_find:
  assumes "distinct (map kb rs)"
  shows "merge_left ka kb ls rs = map (\<lambda>a. (a, find (\<lambda>b. kb b = ka a) rs)) ls"
  unfolding merge_left_def
proof (rule concat_map_single)
  fix a
  from assms
  show "(case filter (\<lambda>b. kb b = ka a) rs of [] \<Rightarrow> [(a, None)] | ms \<Rightarrow> map (\<lambda>b. (a, Some b)) ms)
        = [(a, find (\<lambda>b. kb b = ka a) rs)]"
  proof (induction rs)
    case Nil
    then show ?case by simp
  next
    case (Cons x xs)
    show ?case
    proof (cases "kb x = ka a")
      case True
      with Cons.prems have "filter (\<lambda>b. kb b = ka a) xs = []"
        by (auto simp: filter_empty_conv image_iff)
      with True show ?thesis by simp
    next
      case False
      with Cons show ?thesis by simp
    qed
  qed
qed

lemma fillna0_find_le:
  assumes "\<And>b. b \<in> set rs \<Longrightarrow> col b \<le> 1"
  shows "fillna0 col (find P rs) \<le> 1"
proof (cases "find P rs")
  case None
  then show ?thesis by (simp add: fillna0_def)
next
  case (Some b)
  then have "b \<in> set rs"
    by (auto simp: find_Some_iff)
  with assms Some show ?thesis by (simp add: fillna0_def)
qed

lemma sum_list_le_length:
  "(\<And>x. x \<in> set xs \<Longrightarrow> f x \<le> (1::nat)) \<Longrightarrow> sum_list (map f xs) \<le> length xs"
proof (induction xs)
  case Nil
  then show ?case by simp
next
  case (Cons x xs)
  then have "f x \<le> 1" "sum_list (map f xs) \<le> length xs" by simp_all
  then show ?case by simp
qed

lemma sum_list_eq_length:
  "(\<And>x. x \<in> set xs \<Longrightarrow> f x = (1::nat)) \<Longrightarrow> sum_list (map f xs) = length xs"
  by (induction xs) simp_all

lemma length_drop_duplicates: "length (drop_duplicates xs) = card (set xs)"
  by (simp add: drop_duplicates_def length_remdups_card_conv)

lemma distinct_drop_duplicates: "distinct (drop_duplicates xs)"
  by (simp add: drop_duplicates_def)

lemma set_drop_duplicates: "set (drop_duplicates xs) = set xs"
  by (simp add: drop_duplicates_def)

lemma funnel_users_eq:
  "drop_duplicates (map (\<lambda>r. (user_id (fst r), map_option snd (snd r)))
      (map (\<lambda>e. (e, Some (user_id e, t0_of events (user_id e)))) events))
   = funnel_users events"
  by (simp add: funnel_users_def comp_def)

lemma distinct_fst_funnel_users: "distinct (map fst (funnel_users events))"
proof -
  have "inj_on fst (set (funnel_users events))"
    by (auto simp: inj_on_def funnel_users_def set_drop_duplicates)
  then show ?thesis
    by (simp add: distinct_map funnel_users_def distinct_drop_duplicates)
qed

lemma length_funnel_users: "length (funnel_users events) = card (user_id ` set events)"
proof -
  have "length (funnel_users events) = card ((\<lambda>u. (u, Some (t0_of events u))) ` user_id ` set events)"
    by (simp add: funnel_users_def length_drop_duplicates image_image)
  also have "\<dots> = card (user_id ` set events)"
    by (rule card_image) (simp add: inj_on_def)
  finally show ?thesis .
qed

lemma funnel_merged:
  fixes U :: "(int \<times> 't) list" and S2 S3 :: "(int \<times> nat) list"
  assumes "distinct (map fst U)" "distinct (map fst S2)" "distinct (map fst S3)"
  shows "merge_left (\<lambda>r. fst (fst (fst r))) fst
           (merge_left (\<lambda>r. fst (fst r)) fst
              (merge_left fst fst U (map (\<lambda>(u, t). (u, t, 1::nat)) U)) S2) S3
         = map (\<lambda>a. (((a, find (\<lambda>b. fst b = fst a) (map (\<lambda>(u, t). (u, t, 1::nat)) U)),
                       find (\<lambda>b. fst b = fst a) S2), find (\<lambda>b. fst b = fst a) S3)) U"
proof -
  have "distinct (map fst (map (\<lambda>(u, t). (u, t, 1::nat)) U))"
    using assms(1) by (simp add: comp_def split_beta)
  then show ?thesis
    using assms(2,3) by (simp add: merge_left_find comp_def)
qed

lemma find_step1:
  assumes "a \<in> set U"
  shows "fillna0 (\<lambda>(u, t, s). s) (find (\<lambda>b. fst b = fst a) (map (\<lambda>(u, t). (u, t, 1::nat)) U)) = 1"
proof (cases "find (\<lambda>b. fst b = fst a) (map (\<lambda>(u, t). (u, t, 1::nat)) U)")
  case None
  with assms show ?thesis
    by (auto simp: find_None_iff split_beta)
next
  case (Some b)
  then have "b \<in> set (map (\<lambda>(u, t). (u, t, 1::nat)) U)"
    by (auto simp: find_Some_iff)
  then have "(\<lambda>(u, t, s). s) b = 1"
    by auto
  with Some show ?thesis
    by (simp add: fillna0_def)
qed

lemma funnel_sums:
  fixes U :: "(int \<times> 't) list" and S2 S3 :: "(int \<times> nat) list"
  assumes "distinct (map fst U)" "distinct (map fst S2)" "distinct (map fst S3)"
    and "\<And>b. b \<in> set S2 \<Longrightarrow> snd b \<le> 1" and "\<And>b. b \<in> set S3 \<Longrightarrow> snd b \<le> 1"
  defines "df \<equiv> merge_left (\<lambda>r. fst (fst (fst r))) fst
           (merge_left (\<lambda>r. fst (fst r)) fst
              (merge_left fst fst U (map (\<lambda>(u, t). (u, t, 1::nat)) U)) S2) S3"
  shows "sum_list (map (\<lambda>r. fillna0 (\<lambda>(u, t, s). s) (snd (fst (fst r)))) df) = length U"
    and "sum_list (map (\<lambda>r. fillna0 snd (snd (fst r))) df) \<le> length U"
    and "sum_list (map (\<lambda>r. fillna0 snd (snd r)) df) \<le> length U"
proof -
  have df: "df = map (\<lambda>a. (((a, find (\<lambda>b. fst b = fst a) (map (\<lambda>(u, t). (u, t, 1::nat)) U)),
                       find (\<lambda>b. fst b = fst a) S2), find (\<lambda>b. fst b = fst a) S3)) U"
    unfolding df_def using assms(1-3) by (rule funnel_merged)
  show "sum_list (map (\<lambda>r. fillna0 (\<lambda>(u, t, s). s) (snd (fst (fst r)))) df) = length U"
    unfolding df map_map comp_def fst_conv snd_conv
    by (rule sum_list_eq_length) (rule find_step1)
  show "sum_list (map (\<lambda>r. fillna0 snd (snd (fst r))) df) \<le> length U"
    unfolding df map_map comp_def fst_conv snd_conv
    by (rule sum_list_le_length) (rule fillna0_find_le, rule assms(4))
  show "sum_list (map (\<lambda>r. fillna0 snd (snd r)) df) \<le> length U"
    unfolding df map_map comp_def fst_conv snd_conv
    by (rule sum_list_le_length) (rule fillna0_find_le, rule assms(5))
qed

lemma step_users_distinct:
  "distinct (map fst (map (\<lambda>(u, n). (u, 1::nat))
     (filter Q (map (\<lambda>(u, g). (u, length g)) (groupby key xs)))))"
proof -
  let ?ys = "map (\<lambda>(u, g). (u, length g)) (groupby key xs)"
  have a: "map fst (map (\<lambda>(u, n). (u, 1::nat)) (filter Q ?ys)) = map fst (filter Q ?ys)"
    by (simp add: comp_def split_beta)
  have "map fst ?ys = map fst (groupby key xs)"
    by (simp add: comp_def split_beta)
  then have "distinct (map fst ?ys)"
    by (simp only: distinct_groupby)
  then have "distinct (map fst (filter Q ?ys))"
    by (rule distinct_map_filter)
  with a show ?thesis
    by (simp only:)
qed

lemma step_users_one:
  "b \<in> set (map (\<lambda>(u, n). (u, 1::nat)) xs) \<Longrightarrow> snd b \<le> 1"
  by auto

lemma build_funnel_counts:
  fixes events :: "event_row list"
  defines "ev \<equiv> map (\<lambda>e. (e, Some (user_id e, t0_of events (user_id e)))) events"
  defines "S2 \<equiv> map (\<lambda>(u, n). (u, 1::nat)) (filter (\<lambda>(u, n). 5 \<le> n)
                   (map (\<lambda>(u, g). (u, length g))
                        (groupby (\<lambda>r. user_id (fst r))
                           (filter (\<lambda>r. event (fst r) = ''view'' \<and> float_le (days_since r) 3) ev))))"
  defines "S3 \<equiv> map (\<lambda>(u, n). (u, 1::nat)) (filter (\<lambda>(u, n). 0 < n)
                   (map (\<lambda>(u, g). (u, length g))
                    (groupby (\<lambda>r. user_id (fst r))
                       (filter (\<lambda>r. float_ge (days_since r) 7 \<and> float_lt (days_since r) 8) ev))))"
  defines "df \<equiv> merge_left (\<lambda>r. fst (fst (fst r))) fst
                 (merge_left (\<lambda>r. fst (fst r)) fst
                    (merge_left fst fst (funnel_users events)
                       (map (\<lambda>(u, t). (u, t, 1::nat)) (funnel_users events))) S2) S3"
  defines "n1 \<equiv> sum_list (map (\<lambda>r. fillna0 (\<lambda>(u, t, s). s) (snd (fst (fst r)))) df)"
  defines "n2 \<equiv> sum_list (map (\<lambda>r. fillna0 snd (snd (fst r))) df)"
  defines "n3 \<equiv> sum_list (map (\<lambda>r. fillna0 snd (snd r)) df)"
  shows "build_funnel events =
           [\<lparr>step = ''signup'', users = n1, rate_vs_signup = true_divide n1 (Some n1)\<rparr>,
            \<lparr>step = ''activation(5 views in 3d)'', users = n2, rate_vs_signup = true_divide n2 (Some n1)\<rparr>,
            \<lparr>step = ''day7_retention'', users = n3, rate_vs_signup = true_divide n3 (Some n1)\<rparr>]"
    and "n1 = card (user_id ` set events)" and "n2 \<le> n1" and "n3 \<le> n1"
proof -
  show "build_funnel events =
           [\<lparr>step = ''signup'', users = n1, rate_vs_signup = true_divide n1 (Some n1)\<rparr>,
            \<lparr>step = ''activation(5 views in 3d)'', users = n2, rate_vs_signup = true_divide n2 (Some n1)\<rparr>,
            \<lparr>step = ''day7_retention'', users = n3, rate_vs_signup = true_divide n3 (Some n1)\<rparr>]"
    unfolding build_funnel_def Let_def merge_left_first_ts funnel_users_eq
      n1_def n2_def n3_def df_def S2_def S3_def ev_def
    by (rule refl)
  have d2: "distinct (map fst S2)" unfolding S2_def by (rule step_users_distinct)
  have d3: "distinct (map fst S3)" unfolding S3_def by (rule step_users_distinct)
  have o2: "snd b \<le> 1" if "b \<in> set S2" for b using that unfolding S2_def by (rule step_users_one)
  have o3: "snd b \<le> 1" if "b \<in> set S3" for b using that unfolding S3_def by (rule step_users_one)
  note sums = funnel_sums[OF distinct_fst_funnel_users d2 d3 o2 o3, of events, folded df_def]
  from sums(1) have n1: "n1 = length (funnel_users events)"
    unfolding n1_def .
  then show "n1 = card (user_id ` set events)"
    by (simp only: length_funnel_users)
  from sums(2) n1 show "n2 \<le> n1" unfolding n2_def by simp
  from sums(3) n1 show "n3 \<le> n1" unfolding n3_def by simp
qed

lemma build_funnel_shape:
  obtains n1 n2 n3 where
    "build_funnel events =
      [\<lparr>step = ''signup'', users = n1, rate_vs_signup = true_divide n1 (Some n1)\<rparr>,
       \<lparr>step = ''activation(5 views in 3d)'', users = n2, rate_vs_signup = true_divide n2 (Some n1)\<rparr>,
       \<lparr>step = ''day7_retention'', users = n3, rate_vs_signup = true_divide n3 (Some n1)\<rparr>]"
    "n1 = card (user_id ` set events)" "n2 \<le> n1" "n3 \<le> n1"
  using build_funnel_counts [of events] by (rule that)

lemma build_funnel_example:
  "build_funnel events_example =
     [\<lparr>step = ''signup'', users = 3, rate_vs_signup = Fin 1\<rparr>,
      \<lparr>step = ''activation(5 views in 3d)'', users = 1, rate_vs_signup = Fin (1 / 3)\<rparr>,
      \<lparr>step = ''day7_retention'', users = 1, rate_vs_signup = Fin (1 / 3)\<rparr>]"
  by code_simp

text \<open>
  C7.  For every non-empty event log the funnel table has the three rows \<^verbatim>\<open>signup\<close>,
  \<^verbatim>\<open>activation(5 views in 3d)\<close> and \<^verbatim>\<open>day7_retention\<close>; the signup count is the number of
  distinct users of the log (at least 1); the activation count and the day-7 retention
  count are each at most the signup count; and the rate of the signup row is exactly 1.
\<close>

theorem build_funnel_bounds:
  assumes "events \<noteq> []"
  shows "map step (build_funnel events)
           = [''signup'', ''activation(5 views in 3d)'', ''day7_retention'']
    \<and> users (build_funnel events ! 0) = card (user_id ` set events)
    \<and> 1 \<le> users (build_funnel events ! 0)
    \<and> users (build_funnel events ! 1) \<le> users (build_funnel events ! 0)
    \<and> users (build_funnel events ! 2) \<le> users (build_funnel events ! 0)
    \<and> rate_vs_signup (build_funnel events ! 0) = Fin 1"
proof -
  obtain n1 n2 n3 where f: "build_funnel events =
      [\<lparr>step = ''signup'', users = n1, rate_vs_signup = true_divide n1 (Some n1)\<rparr>,
       \<lparr>step = ''activation(5 views in 3d)'', users = n2, rate_vs_signup = true_divide n2 (Some n1)\<rparr>,
       \<lparr>step = ''day7_retention'', users = n3, rate_vs_signup = true_divide n3 (Some n1)\<rparr>]"
    and n: "n1 = card (user_id ` set events)" "n2 \<le> n1" "n3 \<le> n1"
    by (rule build_funnel_shape)
  from assms have "user_id ` set events \<noteq> {}" "finite (user_id ` set events)"
    by simp_all
  then have "0 < card (user_id ` set events)"
    by (simp add: card_gt_0_iff)
  with n(1) have pos: "1 \<le> n1"
    by simp
  then have "true_divide n1 (Some n1) = Fin 1"
    by simp
  with n pos show ?thesis
    unfolding f by simp
qed

theorem build_funnel_bounds_witness:
  "events_example \<noteq> []
   \<and> map users (build_funnel events_example) = [3, 1, 1]
   \<and> users (build_funnel events_example ! 1) \<le> users (build_funnel events_example ! 0)
   \<and> users (build_funnel events_example ! 2) \<le> users (build_funnel events_example ! 0)
   \<and> rate_vs_signup (build_funnel events_example ! 0) = Fin 1"
proof -
  have h: "events_example \<noteq> []"
    by (simp add: events_example_def)
  have "map users (build_funnel events_example) = [3, 1, 1]"
    by (simp add: build_funnel_example)
  with build_funnel_bounds [OF h] h show ?thesis
    by blast
qed

section \<open>Properties of random\_assign\_users\<close>

lemma rng_random_draws:
  "fst (rng_random n rng) = map (\<lambda>i. to_double (pcg_output ((pcg_step ^^ Suc i) rng))) [0..<n]"
proof (induction n arbitrary: rng)
  case 0
  show ?case by simp
next
  case (Suc n)
  have "fst (rng_random (Suc n) rng)
        = to_double (pcg_output (pcg_step rng)) # fst (rng_random n (pcg_step rng))"
    by (simp add: next_double_def Let_def split_beta)
  also have "fst (rng_random n (pcg_step rng))
        = map (\<lambda>i. to_double (pcg_output ((pcg_step ^^ Suc i) (pcg_step rng)))) [0..<n]"
    by (rule Suc.IH)
  also have "\<dots> = map (\<lambda>i. to_double (pcg_output ((pcg_step ^^ Suc (Suc i)) rng))) [0..<n]"
    by (simp only: funpow_Suc_right comp_def)
  finally show ?case
    by (simp only: map_upt_Suc funpow.simps comp_def id_apply)
qed

lemma to_double_range: "0 \<le> to_double w \<and> to_double w < 1"
proof -
  have "uint (drop_bit 11 w) = uint w div 2 ^ 11"
    by (simp add: drop_bit_eq_div uint_div_distrib)
  moreover have "uint w < 2 ^ 64"
    using uint_lt2p [of w] by simp
  ultimately have "uint (drop_bit 11 w) < 9007199254740992"
    by simp
  then have "(of_int (uint (drop_bit 11 w)) :: rat) < of_int 9007199254740992"
    by (simp only: of_int_less_iff)
  moreover have "(0::rat) \<le> of_int (uint (drop_bit 11 w))"
    by (simp only: of_int_0_le_iff uint_ge_0)
  ultimately show ?thesis
    by (simp add: to_double_def)
qed

lemma random_assign_users_closed:
  "random_assign_users os_entropy users' seed p
   = zip users' (map (\<lambda>i. if seeded_draw seed i < p then ''T'' else ''C'') [0..<length users'])"
  by (simp add: random_assign_users_def default_rng_def rng_random_draws seeded_draw_def comp_def)

lemma pcg64_seed_42:
  "pcg64_seed 42 = \<lparr>pcg_state = 274674114334540486603088602300644985544,
                     pcg_inc = 332724090758049132448979897138935081983\<rparr>"
  by code_simp

lemma seeded_draw_42:
  "seeded_draw 42 0 = 1742794085938889 / 2251799813685248"
  "seeded_draw 42 (Suc 0) = 3953065555456575 / 9007199254740992"
  "seeded_draw 42 (Suc (Suc 0)) = 3866781272173985 / 4503599627370496"
  unfolding seeded_draw_def pcg64_seed_42 by code_simp+


text \<open>
  C4.  For every user list, seed and treatment probability \<open>p\<close>, and whatever the entropy
  of the operating system: the assignment table lists the users in their order, and the
  user at position \<open>i\<close> is labelled \<^verbatim>\<open>T\<close> exactly when the draw \<open>seeded_draw seed i\<close> is less
  than \<open>p\<close>, and \<^verbatim>\<open>C\<close> otherwise.  That draw is a number of the interval from 0 to 1 that
  depends on the seed and the position alone, so a second call with the same seed and the
  same user list, in any environment, gives the same table.
\<close>

theorem random_assign_users_deterministic:
  "random_assign_users os_entropy users' seed p
     = zip users' (map (\<lambda>i. if seeded_draw seed i < p then ''T'' else ''C'') [0..<length users'])
   \<and> random_assign_users os_entropy2 users' seed p = random_assign_users os_entropy users' seed p
   \<and> map fst (random_assign_users os_entropy users' seed p) = users'
   \<and> 0 \<le> seeded_draw seed i \<and> seeded_draw seed i < 1"
proof -
  have "map fst (random_assign_users os_entropy users' seed p) = users'"
    unfolding random_assign_users_closed by simp
  moreover have "0 \<le> seeded_draw seed i \<and> seeded_draw seed i < 1"
    unfolding seeded_draw_def by (rule to_double_range)
  ultimately show ?thesis
    by (simp only: random_assign_users_closed simp_thms)
qed

text \<open>
  With seed 42 the first three draws are 0.7739..., 0.4388... and 0.8585..., as NumPy
  gives them; at \<open>p = 1 / 2\<close> the labels are \<^verbatim>\<open>C\<close>, \<^verbatim>\<open>T\<close>, \<^verbatim>\<open>C\<close>.
\<close>

theorem random_assign_users_deterministic_witness:
  "random_assign_users 0 [11, 12, 13] 42 (1 / 2) = [(11, ''C''), (12, ''T''), (13, ''C'')]
   \<and> random_assign_users 1 [11, 12, 13] 42 (1 / 2) = random_assign_users 0 [11, 12, 13] 42 (1 / 2)"
proof -
  note t = random_assign_users_deterministic [of _ "[11, 12, 13]" 42 "1 / 2"]
  have "[0..<length [11, 12, 13 :: int]] = [0, 1, 2]"
    by (simp add: upt_rec)
  with t [of 0 1 0] have "random_assign_users 0 [11, 12, 13] 42 (1 / 2)
      = [(11, ''C''), (12, ''T''), (13, ''C'')]"
    by (simp add: seeded_draw_42)
  with t [of 0 1 0] show ?thesis
    by simp
qed

section \<open>The error function and the chi-square distribution function\<close>

lemma summable_erf_terms: "summable (\<lambda>m. (- 1) ^ m * x ^ (2 * m + 1) / (fact m * real (2 * m + 1)))"
proof (rule summable_comparison_test')
  have "summable (\<lambda>m. (x\<^sup>2) ^ m / fact m)"
    using sums_summable [OF exp_converges [of "x\<^sup>2"]] by (simp add: divide_inverse mult.commute)
  then show "summable (\<lambda>m. \<bar>x\<bar> * ((x\<^sup>2) ^ m / fact m))"
    by (rule summable_mult)
next
  fix m :: nat
  have "norm ((- 1) ^ m * x ^ (2 * m + 1) / (fact m * real (2 * m + 1)))
        = (\<bar>x\<bar> * (x\<^sup>2) ^ m) / (fact m * real (2 * m + 1))"
    by (simp add: abs_mult power_abs power_mult power_even_abs)
  also have "\<dots> \<le> (\<bar>x\<bar> * (x\<^sup>2) ^ m) / (fact m * 1)"
    by (intro divide_left_mono mult_left_mono mult_nonneg_nonneg mult_pos_pos) simp_all
  also have "\<dots> = \<bar>x\<bar> * ((x\<^sup>2) ^ m / fact m)"
    by simp
  finally show "norm ((- 1) ^ m * x ^ (2 * m + 1) / (fact m * real (2 * m + 1)))
        \<le> \<bar>x\<bar> * ((x\<^sup>2) ^ m / fact m)" .
qed

lemma erf_coeff_odd:
  "erf_coeff n * x ^ n
   = (if even n then 0
      else (\<lambda>m. (- 1) ^ m * x ^ (2 * m + 1) / (fact m * real (2 * m + 1))) ((n - 1) div 2))"
proof (cases "even n")
  case True
  then show ?thesis by (simp add: erf_coeff_def)
next
  case False
  then have "2 * ((n - 1) div 2) + 1 = n"
    by (simp add: odd_two_times_div_two_succ)
  with False show ?thesis
    by (simp add: erf_coeff_def)
qed

lemma summable_erf_series: "summable (\<lambda>n. erf_coeff n * x ^ n)"
proof -
  have "(\<lambda>n. if even n then 0
      else (\<lambda>m. (- 1) ^ m * x ^ (2 * m + 1) / (fact m * real (2 * m + 1))) ((n - 1) div 2))
      sums (\<Sum>m. (- 1) ^ m * x ^ (2 * m + 1) / (fact m * real (2 * m + 1)))"
    by (rule sums_if') (rule summable_sums [OF summable_erf_terms])
  then show ?thesis
    unfolding erf_coeff_odd [symmetric] by (rule sums_summable)
qed

lemma diffs_erf_coeff:
  "diffs erf_coeff n * x ^ n
   = (if even n then (\<lambda>m. (- (x\<^sup>2)) ^ m /\<^sub>R fact m) (n div 2) else (\<lambda>m. 0) ((n - 1) div 2))"
proof (cases "even n")
  case True
  then obtain k where k: "n = 2 * k" by (elim evenE)
  have "erf_coeff (Suc (2 * k)) = (- 1) ^ k / (fact k * real (Suc (2 * k)))"
    by (simp add: erf_coeff_def)
  then have "diffs erf_coeff (2 * k) = real (Suc (2 * k)) * ((- 1) ^ k / (fact k * real (Suc (2 * k))))"
    by (simp only: diffs_def)
  also have "\<dots> = (- 1) ^ k / fact k"
    by (simp del: of_nat_Suc)
  finally have d: "diffs erf_coeff (2 * k) = (- 1) ^ k / fact k" .
  have "(- (x\<^sup>2)) ^ k = (- 1) ^ k * x ^ (2 * k)"
    by (simp add: power_mult power_minus [of "x\<^sup>2"])
  with d k show ?thesis
    by (simp add: divide_inverse mult_ac)
next
  case False
  then show ?thesis by (simp add: diffs_def erf_coeff_def)
qed

lemma diffs_erf_series: "(\<Sum>n. diffs erf_coeff n * x ^ n) = exp (- (x\<^sup>2))"
proof -
  have "(\<lambda>n. if even n then (\<lambda>m. (- (x\<^sup>2)) ^ m /\<^sub>R fact m) (n div 2) else (\<lambda>m. 0::real) ((n - 1) div 2))
        sums (0 + exp (- (x\<^sup>2)))"
    by (rule sums_if) (rule sums_zero, rule exp_converges)
  then have "(\<lambda>n. diffs erf_coeff n * x ^ n) sums exp (- (x\<^sup>2))"
    unfolding diffs_erf_coeff [symmetric] by simp
  then show ?thesis
    by (rule sums_unique [symmetric])
qed

lemma DERIV_erf_series: "DERIV erf_series x :> exp (- (x\<^sup>2))"
proof -
  have "((\<lambda>x. \<Sum>n. erf_coeff n * x ^ n) has_field_derivative (\<Sum>n. diffs erf_coeff n * x ^ n)) (at x)"
    by (rule termdiffs_strong_converges_everywhere) (rule summable_erf_series)
  then show ?thesis
    unfolding diffs_erf_series erf_series_def [abs_def] .
qed

lemma erf_series_0: "erf_series 0 = 0"
  by (simp add: erf_series_def erf_coeff_def)

lemma DERIV_erf_poly: "DERIV (erf_poly n) x :> (\<Sum>m<n. (- (x\<^sup>2)) ^ m / fact m)"
proof -
  have "((\<lambda>x. (- 1) ^ m / (fact m * real (2 * m + 1)) * x ^ (2 * m + 1))
          has_field_derivative (- (x\<^sup>2)) ^ m / fact m) (at x)" for m
  proof -
    have "((\<lambda>x. x ^ (2 * m + 1)) has_field_derivative real (2 * m + 1) * x ^ (2 * m)) (at x)"
      using DERIV_pow [of "2 * m + 1" x] by simp
    then have "((\<lambda>x. (- 1) ^ m / (fact m * real (2 * m + 1)) * x ^ (2 * m + 1))
          has_field_derivative
            (- 1) ^ m / (fact m * real (2 * m + 1)) * (real (2 * m + 1) * x ^ (2 * m))) (at x)"
      by (rule DERIV_cmult)
    moreover have "(- 1) ^ m / (fact m * real (2 * m + 1)) * (real (2 * m + 1) * x ^ (2 * m))
        = (- (x\<^sup>2)) ^ m / fact m"
      by (simp add: power_mult power_minus [of "x\<^sup>2"] del: of_nat_Suc of_nat_add)
    ultimately show ?thesis
      by simp
  qed
  then show ?thesis
    unfolding erf_poly_def [abs_def] by (intro DERIV_sum)
qed

lemma exp_minus_lower:
  fixes x :: real
  assumes "even n"
  shows "(\<Sum>m<n. (- (x\<^sup>2)) ^ m / fact m) \<le> exp (- (x\<^sup>2))"
proof -
  from Maclaurin_exp_le [of "- (x\<^sup>2)" n] obtain t where
    t: "exp (- (x\<^sup>2)) = (\<Sum>m<n. (- (x\<^sup>2)) ^ m / fact m) + exp t / fact n * (- (x\<^sup>2)) ^ n"
    by blast
  from assms have "0 \<le> (- (x\<^sup>2)) ^ n"
    by (rule zero_le_even_power)
  then have "0 \<le> exp t / fact n * (- (x\<^sup>2)) ^ n"
    by (intro mult_nonneg_nonneg divide_nonneg_nonneg) simp_all
  with t show ?thesis
    by linarith
qed

lemma erf_series_ge_poly:
  assumes "even n" and "0 \<le> x"
  shows "erf_poly n x \<le> erf_series x"
proof -
  have "erf_series 0 - erf_poly n 0 \<le> erf_series x - erf_poly n x"
  proof (rule DERIV_nonneg_imp_nondecreasing [OF assms(2)])
    fix y :: real
    have "DERIV (\<lambda>y. erf_series y - erf_poly n y) y
            :> exp (- (y\<^sup>2)) - (\<Sum>m<n. (- (y\<^sup>2)) ^ m / fact m)"
      by (intro DERIV_diff DERIV_erf_series DERIV_erf_poly)
    moreover have "0 \<le> exp (- (y\<^sup>2)) - (\<Sum>m<n. (- (y\<^sup>2)) ^ m / fact m)"
      using exp_minus_lower [OF assms(1), of y] by simp
    ultimately show "\<exists>d. DERIV (\<lambda>y. erf_series y - erf_poly n y) y :> d \<and> 0 \<le> d"
      by blast
  qed
  moreover have "erf_poly n 0 = 0"
    by (simp add: erf_poly_def)
  ultimately show ?thesis
    by (simp add: erf_series_0)
qed

lemma erf_series_mono:
  assumes "a \<le> b"
  shows "erf_series a \<le> erf_series b"
proof (rule DERIV_nonneg_imp_nondecreasing [OF assms])
  fix y :: real
  have "DERIV erf_series y :> exp (- (y\<^sup>2))"
    by (rule DERIV_erf_series)
  then show "\<exists>d. DERIV erf_series y :> d \<and> 0 \<le> d"
    by (intro exI [of _ "exp (- (y\<^sup>2))"]) simp
qed

lemma arctan_upper:
  assumes "0 \<le> x"
  shows "arctan x \<le> x - x ^ 3 / 3 + x ^ 5 / 5"
proof -
  let ?f = "\<lambda>y::real. y - y ^ 3 / 3 + y ^ 5 / 5 - arctan y"
  have "?f 0 \<le> ?f x"
  proof (rule DERIV_nonneg_imp_nondecreasing [OF assms])
    fix y :: real
    have "DERIV ?f y :> 1 - y\<^sup>2 + y ^ 4 - inverse (1 + y\<^sup>2)"
      by (auto intro!: derivative_eq_intros simp: field_simps)
    moreover have "0 \<le> 1 - y\<^sup>2 + y ^ 4 - inverse (1 + y\<^sup>2)"
    proof -
      have "(1 - y\<^sup>2 + y ^ 4) * (1 + y\<^sup>2) = 1 + y ^ 6"
        by (simp add: algebra_simps power2_eq_square power_numeral_reduce)
      moreover have "0 \<le> y ^ 6"
        by simp
      ultimately have "1 \<le> (1 - y\<^sup>2 + y ^ 4) * (1 + y\<^sup>2)"
        by linarith
      moreover have "0 < 1 + y\<^sup>2"
        by (simp add: add_pos_nonneg)
      ultimately have "inverse (1 + y\<^sup>2) \<le> 1 - y\<^sup>2 + y ^ 4"
        by (simp add: inverse_eq_divide pos_divide_le_eq)
      then show ?thesis
        by simp
    qed
    ultimately show "\<exists>d. DERIV ?f y :> d \<and> 0 \<le> d"
      by blast
  qed
  then show ?thesis
    by simp
qed

lemma pi_upper: "pi \<le> 31416 / 10000"
proof -
  have "arctan (1 / 7) \<le> (1 / 7) - (1 / 7) ^ 3 / 3 + (1 / 7) ^ 5 / 5"
    by (rule arctan_upper) simp
  also have "\<dots> = 35773 / 252105"
    by (simp add: power_numeral_reduce)
  finally have a: "arctan (1 / 7) \<le> 35773 / 252105" .
  have "arctan (3 / 79) \<le> (3 / 79) - (3 / 79) ^ 3 / 3 + (3 / 79) ^ 5 / 5"
    by (rule arctan_upper) simp
  also have "\<dots> = 583970613 / 15385281995"
    by (simp add: power_numeral_reduce)
  finally have b: "arctan (3 / 79) \<le> 583970613 / 15385281995" .
  have "pi = 20 * arctan (1 / 7) + 8 * arctan (3 / 79)"
    using machin_Euler by simp
  with a b show ?thesis
    by simp
qed

lemma erf_poly_20: "erf_poly 20 (5 / 2) = 1088649775224720621970094441646060415 / 1229133408300262710303781852456943616"
  by (simp add: erf_poly_def eval_nat_numeral lessThan_Suc fact_numeral)

lemma erf_series_sqrt_320: "8857 / 10000 < erf_series (sqrt 320)"
proof -
  have "(8857 / 10000 :: real) < erf_poly 20 (5 / 2)"
    unfolding erf_poly_20 by simp
  also have "erf_poly 20 (5 / 2) \<le> erf_series (5 / 2)"
    by (rule erf_series_ge_poly) simp_all
  also have "erf_series (5 / 2) \<le> erf_series (sqrt 320)"
  proof (rule erf_series_mono)
    show "5 / 2 \<le> sqrt 320"
      by (rule real_le_rsqrt) (simp add: power2_eq_square)
  qed
  finally show ?thesis .
qed

lemma sqrt_pi_upper: "sqrt pi < 2 * (8857 / 10000) / (999 / 1000)"
proof (rule real_less_lsqrt)
  show "0 \<le> 2 * (8857 / 10000) / (999 / 1000 :: real)"
    by simp
  have "(31416 / 10000 :: real) < (2 * (8857 / 10000) / (999 / 1000))\<^sup>2"
    by (simp add: power2_eq_square)
  with pi_upper show "pi < (2 * (8857 / 10000) / (999 / 1000))\<^sup>2"
    by (rule le_less_trans)
qed

lemma erf_sqrt_320: "999 / 1000 < erf (sqrt 320)"
proof -
  have pos: "0 < sqrt pi"
    by simp
  from sqrt_pi_upper have "999 / 1000 * sqrt pi < 2 * (8857 / 10000)"
    by (simp add: field_simps)
  also from erf_series_sqrt_320 have "2 * (8857 / 10000) < 2 * erf_series (sqrt 320)"
    by simp
  finally have "999 / 1000 * sqrt pi < 2 * erf_series (sqrt 320)" .
  with pos have "999 / 1000 < 2 * erf_series (sqrt 320) / sqrt pi"
    by (simp add: pos_less_divide_eq)
  then show ?thesis
    by (simp add: erf_def)
qed

section \<open>Properties of srm\_check\<close>

lemma srm_check_eq:
  assumes "0 < length (filter (\<lambda>r. snd r = ''T'') a) + length (filter (\<lambda>r. snd r = ''C'') a)"
  shows "srm_check a
    = Fin (1 - chi2_cdf (chi2_statistic (length (filter (\<lambda>r. snd r = ''T'') a))
                                         (length (filter (\<lambda>r. snd r = ''C'') a))))"
  using assms by (simp add: srm_check_def chi2_statistic_def Let_def)

lemma chi2_statistic_balanced: "chi2_statistic 500 500 = 0"
  by (simp add: chi2_statistic_def)

lemma chi2_statistic_skewed: "chi2_statistic 900 100 = 640"
  by (simp add: chi2_statistic_def power2_eq_square)

lemma chi2_cdf_640: "999 / 1000 < chi2_cdf 640"
  using erf_sqrt_320 by (simp add: chi2_cdf_def)

text \<open>
  C2.  With \<open>nT\<close> and \<open>nC\<close> the numbers of \<^verbatim>\<open>T\<close> and \<^verbatim>\<open>C\<close> rows of the assignment table:
  when there is at least one such row, the SRM check returns \<open>1 - F(X)\<close>, where \<open>X\<close> is the
  two-cell chi-square goodness-of-fit statistic against an even split and \<open>F\<close> the
  chi-square distribution function with 1 degree of freedom (the right-tail p-value);
  with no such row it returns NaN.  For every table with 500 \<^verbatim>\<open>T\<close> and 500 \<^verbatim>\<open>C\<close> rows
  the p-value is greater than 0.9, and for every table with 900 \<^verbatim>\<open>T\<close> and 100 \<^verbatim>\<open>C\<close> rows
  it is less than 0.001.
\<close>

theorem srm_check_p_value:
  fixes a :: "(int \<times> string) list"
  defines "nT \<equiv> length (filter (\<lambda>r. snd r = ''T'') a)"
    and "nC \<equiv> length (filter (\<lambda>r. snd r = ''C'') a)"
  shows "(0 < nT + nC \<longrightarrow> srm_check a = Fin (1 - chi2_cdf (chi2_statistic nT nC)))
    \<and> (nT + nC = 0 \<longrightarrow> srm_check a = NaN)
    \<and> (nT = 500 \<and> nC = 500 \<longrightarrow> (\<exists>p. srm_check a = Fin p \<and> 9 / 10 < p))
    \<and> (nT = 900 \<and> nC = 100 \<longrightarrow> (\<exists>p. srm_check a = Fin p \<and> p < 1 / 1000))"
proof (intro conjI impI)
  assume "0 < nT + nC"
  then show "srm_check a = Fin (1 - chi2_cdf (chi2_statistic nT nC))"
    unfolding nT_def nC_def by (rule srm_check_eq)
next
  assume "nT + nC = 0"
  then show "srm_check a = NaN"
    unfolding nT_def nC_def by (simp add: srm_check_def)
next
  assume h: "nT = 500 \<and> nC = 500"
  then have "0 < nT + nC" by simp
  then have "srm_check a = Fin (1 - chi2_cdf (chi2_statistic nT nC))"
    unfolding nT_def nC_def by (rule srm_check_eq)
  with h have "srm_check a = Fin 1"
    by (simp add: chi2_statistic_balanced chi2_cdf_def)
  then show "\<exists>p. srm_check a = Fin p \<and> 9 / 10 < p"
    by simp
next
  assume h: "nT = 900 \<and> nC = 100"
  then have "0 < nT + nC" by simp
  then have "srm_check a = Fin (1 - chi2_cdf (chi2_statistic nT nC))"
    unfolding nT_def nC_def by (rule srm_check_eq)
  with h have "srm_check a = Fin (1 - chi2_cdf 640)"
    by (simp add: chi2_statistic_skewed)
  moreover from chi2_cdf_640 have "1 - chi2_cdf 640 < 1 / 1000"
    by simp
  ultimately show "\<exists>p. srm_check a = Fin p \<and> p < 1 / 1000"
    by simp
qed

lemma length_filter_label:
  "length (filter (\<lambda>r. snd r = l) (map (\<lambda>i. (int i, l')) xs)) = (if l' = l then length xs else 0)"
  by (induction xs) simp_all

lemma srm_balanced_counts:
  "length (filter (\<lambda>r. snd r = ''T'') srm_balanced) = 500"
  "length (filter (\<lambda>r. snd r = ''C'') srm_balanced) = 500"
  unfolding srm_balanced_def filter_append length_append length_filter_label length_upt
  by simp_all

lemma srm_skewed_counts:
  "length (filter (\<lambda>r. snd r = ''T'') srm_skewed) = 900"
  "length (filter (\<lambda>r. snd r = ''C'') srm_skewed) = 100"
  unfolding srm_skewed_def filter_append length_append length_filter_label length_upt
  by simp_all

theorem srm_check_p_value_witness:
  "length (filter (\<lambda>r. snd r = ''T'') srm_balanced) = 500
   \<and> length (filter (\<lambda>r. snd r = ''C'') srm_balanced) = 500
   \<and> (\<exists>p. srm_check srm_balanced = Fin p \<and> 9 / 10 < p)
   \<and> length (filter (\<lambda>r. snd r = ''T'') srm_skewed) = 900
   \<and> length (filter (\<lambda>r. snd r = ''C'') srm_skewed) = 100
   \<and> (\<exists>p. srm_check srm_skewed = Fin p \<and> p < 1 / 1000)"
proof -
  from srm_check_p_value [of srm_balanced] srm_balanced_counts
  have 1: "\<exists>p. srm_check srm_balanced = Fin p \<and> 9 / 10 < p"
    by blast
  from srm_check_p_value [of srm_skewed] srm_skewed_counts
  have 2: "\<exists>p. srm_check srm_skewed = Fin p \<and> p < 1 / 1000"
    by blast
  from 1 2 srm_balanced_counts srm_skewed_counts show ?thesis
    by blast
qed

end
